theory Spec2Isabelle
  imports Main "HOL-Library.Word"
begin

section \<open>Machine integers of the sources\<close>

text \<open>
  \<^verbatim>\<open>typedef unsigned int uint\<close> (util.hpp) is a 32-bit unsigned integer whose arithmetic
  wraps around; \<^verbatim>\<open>size_t\<close> is the 64-bit unsigned integer of the host.
\<close>

type_synonym uint = "32 word"
type_synonym size_t = "64 word"

section \<open>util.hpp\<close>

subsection \<open>alignup\<close>

text \<open>
  \<^verbatim>\<open>return n % m ? n - n % m + m : n;\<close> on an unsigned integral type. The default
  \<^verbatim>\<open>m = 16U\<close> is written out at the call in \<open>partition_equally\<close>.
\<close>

definition alignup :: "'a::len word \<Rightarrow> 'a word \<Rightarrow> 'a word" where
  "alignup n m = (if n mod m \<noteq> 0 then n - n mod m + m else n)"

subsection \<open>partition_equally\<close>

text \<open>
  The device queues are opaque to the partitioning code, which only takes their number:
  \<open>queue_size\<close> stands for \<^verbatim>\<open>queue.size()\<close>, and \<^verbatim>\<open>uint m = queue.size()\<close> keeps
  its low 32 bits. \<^verbatim>\<open>std::vector<uint> part(m + 1)\<close> is zero-filled. The loop body
  \<^verbatim>\<open>part[i + 1] = std::min(n, part[i] + chunk_size)\<close> runs for \<open>i = 0, ..., m - 1\<close>;
  \<^verbatim>\<open>part.back() = n\<close> overwrites the last element. Of the queue lists only those of
  fewer than \<open>2 ^ 32 - 1\<close> queues are meant: beyond, \<^verbatim>\<open>m\<close> or \<^verbatim>\<open>m + 1\<close> is 0 and the
  source divides by zero or indexes an empty vector.
\<close>

definition partition_step :: "uint \<Rightarrow> uint \<Rightarrow> uint list \<Rightarrow> nat \<Rightarrow> uint list" where
  "partition_step n chunk_size part i = part[i + 1 := min n (part ! i + chunk_size)]"

definition partition_equally :: "uint \<Rightarrow> nat \<Rightarrow> uint list" where
  "partition_equally n queue_size =
     (let m = (word_of_nat queue_size :: uint);
          part = (replicate (unat (m + 1)) 0)[0 := 0]
      in if queue_size > 1
         then foldl (partition_step n (alignup ((n + m - 1) div m) 16)) part [0..<unat m]
         else part[length part - 1 := n])"

subsection \<open>kernel_workgroup_size\<close>

text \<open>
  \<^verbatim>\<open>while(wgsz > dev_wgsz) wgsz /= 2;\<close> on \<^verbatim>\<open>uint\<close>. The loop ends: a \<open>wgsz\<close> above
  \<open>dev_wgsz\<close> is positive, so halving it makes it smaller.
\<close>

function halve_until :: "uint \<Rightarrow> uint \<Rightarrow> uint" where
  "halve_until wgsz dev_wgsz =
     (if wgsz > dev_wgsz then halve_until (wgsz div 2) dev_wgsz else wgsz)"
  by pat_completeness auto
termination
proof (relation "measure (\<lambda>(wgsz, dev_wgsz). unat wgsz)")
  show "wf (measure (\<lambda>(wgsz, dev_wgsz). unat wgsz))"
    by simp
next
  fix wgsz dev_wgsz :: uint
  assume "dev_wgsz < wgsz"
  then have "0 < unat wgsz"
    by (simp add: word_less_nat_alt)
  then have "unat (wgsz div 2) < unat wgsz"
    by (simp add: unat_div)
  then show "((wgsz div 2, dev_wgsz), (wgsz, dev_wgsz)) \<in> measure (\<lambda>(wgsz, dev_wgsz). unat wgsz)"
    by simp
qed

declare halve_until.simps [simp del]

text \<open>
  \<open>getWorkGroupInfo krn d\<close> stands for the OpenCL query
  \<^verbatim>\<open>kernel.getWorkGroupInfo<CL_KERNEL_WORK_GROUP_SIZE>(*d)\<close> as the source holds it,
  in \<^verbatim>\<open>uint dev_wgsz\<close>; the runtime that answers it is not part of the sources and is a
  parameter. The \<^verbatim>\<open>for\<close> loop visits the devices in order, starting from \<open>1024U\<close>.
\<close>

definition kernel_workgroup_size :: "('k \<Rightarrow> 'd \<Rightarrow> uint) \<Rightarrow> 'k \<Rightarrow> 'd list \<Rightarrow> uint" where
  "kernel_workgroup_size getWorkGroupInfo krn device =
     foldl (\<lambda>wgsz d. halve_until wgsz (getWorkGroupInfo krn d)) 1024 device"

subsection \<open>partitioning_scheme\<close>

text \<open>
  The two static members \<^verbatim>\<open>is_set\<close> and \<^verbatim>\<open>pfun\<close>, and the lines written to
  \<^verbatim>\<open>std::cerr\<close>. A \<^verbatim>\<open>std::function\<close> may be empty: \<open>None\<close>; calling an empty one
  throws \<^verbatim>\<open>std::bad_function_call\<close>. A partitioning function sees the length and the
  queue list \<open>'q list\<close>.
\<close>

type_synonym 'q function_type = "(uint \<Rightarrow> 'q list \<Rightarrow> uint list) option"

record 'q partitioning_scheme =
  is_set :: bool
  pfun :: "'q function_type"
  cerr :: "string list"

datatype util_error = Bad_function_call

text \<open>The static initialisers: \<^verbatim>\<open>is_set = false\<close> and a default-constructed \<^verbatim>\<open>pfun\<close>.\<close>

definition partitioning_scheme_init :: "'q partitioning_scheme" where
  "partitioning_scheme_init = \<lparr>is_set = False, pfun = None, cerr = []\<rparr>"

definition set_scheme :: "'q function_type \<Rightarrow> 'q partitioning_scheme \<Rightarrow> 'q partitioning_scheme" where
  "set_scheme f s =
     (if \<not> is_set s then s\<lparr>pfun := f, is_set := True\<rparr>
      else s\<lparr>cerr := cerr s @
        [''Warning: partitioning function is already set and will be left as is.'']\<rparr>)"

text \<open>
  \<^verbatim>\<open>operator()\<close>: the default \<^verbatim>\<open>partition_by_vector_perf\<close> is only declared in
  util.hpp, so it is the parameter \<open>partition_by_vector_perf\<close>. The result is the table
  (or the exception of an empty \<^verbatim>\<open>pfun\<close>) and the state of the static members.
\<close>

definition partition_call ::
  "(uint \<Rightarrow> 'q list \<Rightarrow> uint list) \<Rightarrow> uint \<Rightarrow> 'q list \<Rightarrow> 'q partitioning_scheme
     \<Rightarrow> (util_error + uint list) \<times> 'q partitioning_scheme" where
  "partition_call partition_by_vector_perf n queue s =
     (let s' = (if \<not> is_set s then s\<lparr>pfun := Some partition_by_vector_perf, is_set := True\<rparr> else s)
      in (case pfun s' of None \<Rightarrow> Inl Bad_function_call | Some f \<Rightarrow> Inr (f n queue), s'))"

text \<open>
  A client of the scheme calls \<^verbatim>\<open>set\<close> and \<^verbatim>\<open>operator()\<close> in some order. \<open>scheme_run\<close>
  performs the calls in order and collects what the partition calls return.
\<close>

datatype 'q scheme_op = Set_op "'q function_type" | Call_op uint "'q list"

fun scheme_run ::
  "(uint \<Rightarrow> 'q list \<Rightarrow> uint list) \<Rightarrow> 'q scheme_op list \<Rightarrow> 'q partitioning_scheme
     \<Rightarrow> (util_error + uint list) list \<times> 'q partitioning_scheme" where
  "scheme_run dflt [] s = ([], s)"
| "scheme_run dflt (Set_op f # ops) s = scheme_run dflt ops (set_scheme f s)"
| "scheme_run dflt (Call_op n queue # ops) s =
     (let (r, s') = partition_call dflt n queue s;
          (rs, s'') = scheme_run dflt ops s'
      in (r # rs, s''))"

text \<open>
  What the partition calls of a sequence return when each of them uses the function \<open>p\<close>.
\<close>

fun calls_with :: "'q function_type \<Rightarrow> 'q scheme_op list \<Rightarrow> (util_error + uint list) list" where
  "calls_with p [] = []"
| "calls_with p (Set_op f # ops) = calls_with p ops"
| "calls_with p (Call_op n queue # ops) =
     (case p of None \<Rightarrow> Inl Bad_function_call | Some f \<Rightarrow> Inr (f n queue)) # calls_with p ops"


section \<open>vector.hpp\<close>

subsection \<open>Handles of the OpenCL runtime\<close>

text \<open>
  The OpenCL objects are handles. A default-constructed \<^verbatim>\<open>cl::Buffer\<close>, \<^verbatim>\<open>cl::Kernel\<close> or
  \<^verbatim>\<open>cl::Event\<close> is the null handle \<open>None\<close>. Of a device the sources read its type
  (\<^verbatim>\<open>CL_DEVICE_TYPE_CPU\<close> or not) and its number of compute units (a \<^verbatim>\<open>cl_uint\<close>).
  \<^verbatim>\<open>qctx\<close> and \<^verbatim>\<open>qdev\<close>, which are not among the sources, give the context and the device a
  command queue was created for: they are the two fields of a queue.
\<close>

type_synonym addr = nat
type_synonym cl_context = nat
type_synonym cl_mem = nat
type_synonym cl_buffer = "cl_mem option"
type_synonym cl_kernel = "nat option"
type_synonym cl_event = "nat option"

record cl_device =
  device_id :: nat
  device_type_cpu :: bool
  max_compute_units :: uint

record command_queue =
  qctx :: cl_context
  qdev :: cl_device

subsection \<open>Expressions\<close>

text \<open>
  Modelled from the spec: the expression templates of operations.hpp, which is not among the
  sources. An expression tree is a terminal (a reference to a vector, a scalar constant) or an
  operator or function tag with its children; its shape, the static type \<^verbatim>\<open>Expr\<close> of the
  C++ expression, keeps the tags and the kinds of the terminals and forgets which vectors and
  scalars they are.
\<close>

datatype tag =
    Plus | Minus | Multiplies | Divides | Modulus
  | Bitwise_and | Bitwise_or | Bitwise_xor | Shift_left | Shift_right
  | Function string

datatype 'a expr =
    Vector_terminal addr
  | Scalar_terminal 'a
  | Node tag "'a expr list"

datatype shape =
    Vector_shape
  | Scalar_shape
  | Node_shape tag "shape list"

fun shape_of :: "'a expr \<Rightarrow> shape" where
  "shape_of (Vector_terminal x) = Vector_shape"
| "shape_of (Scalar_terminal c) = Scalar_shape"
| "shape_of (Node t es) = Node_shape t (map shape_of es)"

text \<open>
  Modelled from the spec: the sparse matrix of spmat.hpp, which is not among the sources, in
  compressed row form (row offsets, column indices, values), and the product \<^verbatim>\<open>A * x\<close> of a
  matrix and a vector as a terminal that refers to both. An \<^verbatim>\<open>spmv_expression\<close> is such a
  product, or the sum of a vector expression and a product.
\<close>

record 'a spmat =
  row :: "nat list"
  col :: "nat list"
  val :: "'a list"

record 'a spmv =
  spmv_A :: "'a spmat"
  spmv_x :: addr

datatype 'a spmv_expression =
    Spmv_terminal "'a spmv"
  | Spmv_plus "'a expr" "'a spmv"

subsection \<open>The state of a program\<close>

text \<open>
  \<^verbatim>\<open>struct vector\<close> has four members. \<open>part\<close> holds \<^verbatim>\<open>size_t\<close> offsets.
\<close>

record vector =
  queue :: "command_queue list"
  part :: "size_t list"
  buf :: "cl_buffer list"
  event :: "cl_event list"

text \<open>
  The commands handed to the OpenCL runtime, in the order of the calls. \<open>Write_buffer\<close> and
  \<open>Read_buffer\<close> carry the index \<open>d\<close> of the queue, the buffer, the blocking flag, the offset
  in the buffer, the length and the offset from \<^verbatim>\<open>hostptr\<close>. Offsets and lengths are counted
  in elements; the source multiplies the two that go to OpenCL by \<^verbatim>\<open>sizeof(T)\<close>.
  \<open>Copy_buffer\<close> carries the queue, source, destination, the two offsets and the length.
  \<open>NDRange_kernel\<close> carries the queue, the kernel, its first two arguments (the size of the
  part and the buffer), the global and the local size. \<open>Wait_event\<close> is \<^verbatim>\<open>cl::Event::wait\<close>.
  The event of a command is its position in this list.
\<close>

datatype command =
    Write_buffer nat cl_mem bool nat nat nat
  | Read_buffer nat cl_mem bool nat nat nat
  | Copy_buffer nat cl_mem cl_mem nat nat nat
  | NDRange_kernel nat nat size_t cl_buffer size_t size_t
  | Wait_event nat

text \<open>
  What a call can raise. \<open>Out_of_bounds\<close> and \<open>Division_by_zero\<close> are undefined behaviour in
  C++ (an index outside a \<^verbatim>\<open>std::vector\<close> or outside the host array, \<^verbatim>\<open>n % 0\<close>);
  \<open>No_object\<close> is the use of an address that holds no vector; the others are the
  \<^verbatim>\<open>cl::Error\<close> codes of the runtime.
\<close>

datatype vex_error =
    Out_of_bounds
  | Division_by_zero
  | No_object
  | CL_invalid_mem_object
  | CL_invalid_value
  | CL_mem_copy_overlap
  | CL_invalid_event
  | CL_invalid_kernel
  | CL_invalid_work_group_size
  | CL_build_program_failure

text \<open>
  The state: the vector objects by address, the contents of the device buffers by handle,
  the commands issued so far, the three static maps of every \<^verbatim>\<open>exdata<Expr>\<close> (one map per
  shape, keyed by context), the calls of \<^verbatim>\<open>build_sources\<close> so far (the shape, the
  context and whether the build succeeded), and what was written to \<^verbatim>\<open>std::cout\<close>.
\<close>

record 'a world =
  objects :: "addr \<rightharpoonup> vector"
  mem :: "cl_mem \<rightharpoonup> 'a list"
  commands :: "command list"
  exdata_compiled :: "shape \<Rightarrow> cl_context \<rightharpoonup> bool"
  exdata_kernel :: "shape \<Rightarrow> cl_context \<rightharpoonup> cl_kernel"
  exdata_wgsize :: "shape \<Rightarrow> cl_context \<rightharpoonup> size_t"
  builds :: "(shape \<times> cl_context \<times> bool) list"
  stdout :: "string list"

text \<open>
  What the sources ask of the OpenCL runtime and cannot be read from them: whether the kernel
  source generated for a shape builds in a context (it may depend on how many builds came
  before), the work-group size the runtime reports
  for a kernel on a device, and what a launched kernel does to the device buffers.
\<close>

record 'a cl_runtime =
  build_ok :: "shape \<Rightarrow> cl_context \<Rightarrow> nat \<Rightarrow> bool"
  work_group_info :: "nat \<Rightarrow> cl_device \<Rightarrow> uint"
  run_kernel :: "'a expr \<Rightarrow> nat \<Rightarrow> (cl_mem \<rightharpoonup> 'a list) \<Rightarrow> (cl_mem \<rightharpoonup> 'a list)"

text \<open>A loop whose body may raise: the first error ends it.\<close>

fun foldM :: "('s \<Rightarrow> 'x \<Rightarrow> 'e + 's) \<Rightarrow> 's \<Rightarrow> 'x list \<Rightarrow> 'e + 's" where
  "foldM f s [] = Inr s"
| "foldM f s (x # xs) = (case f s x of Inl e \<Rightarrow> Inl e | Inr s' \<Rightarrow> foldM f s' xs)"

subsection \<open>size\<close>

text \<open>\<^verbatim>\<open>return part.empty() ? 0 : part.back();\<close>\<close>

definition vector_size :: "vector \<Rightarrow> size_t" where
  "vector_size v = (if part v = [] then 0 else last (part v))"

subsection \<open>Transfers between the host and the devices\<close>

text \<open>
  \<^verbatim>\<open>enqueueWriteBuffer\<close> and \<^verbatim>\<open>enqueueReadBuffer\<close> of the runtime. The buffer must be a live
  buffer and the range must lie in it; the host range must lie in the host array, here the
  list that starts at \<^verbatim>\<open>hostptr\<close>. The data is moved when the command is issued: this is the
  state once the command has completed, which is what a later command on the same in-order
  queue and a caller that has waited for the event see.
\<close>

definition enqueueWriteBuffer ::
  "nat \<Rightarrow> cl_buffer \<Rightarrow> bool \<Rightarrow> nat \<Rightarrow> nat \<Rightarrow> 'a list \<Rightarrow> nat \<Rightarrow> 'a world
     \<Rightarrow> vex_error + cl_event \<times> 'a world" where
  "enqueueWriteBuffer d b blocking doff len host hoff w =
     (case b of
        None \<Rightarrow> Inl CL_invalid_mem_object
      | Some h \<Rightarrow>
          (case mem w h of
             None \<Rightarrow> Inl CL_invalid_mem_object
           | Some xs \<Rightarrow>
               if length xs < doff + len then Inl CL_invalid_value
               else if length host < hoff + len then Inl Out_of_bounds
               else Inr (Some (length (commands w)),
                 w\<lparr>mem := (mem w)(h \<mapsto> take doff xs @ take len (drop hoff host) @ drop (doff + len) xs),
                   commands := commands w @ [Write_buffer d h blocking doff len hoff]\<rparr>)))"

definition enqueueReadBuffer ::
  "nat \<Rightarrow> cl_buffer \<Rightarrow> bool \<Rightarrow> nat \<Rightarrow> nat \<Rightarrow> 'a list \<Rightarrow> nat \<Rightarrow> 'a world
     \<Rightarrow> vex_error + cl_event \<times> 'a list \<times> 'a world" where
  "enqueueReadBuffer d b blocking doff len host hoff w =
     (case b of
        None \<Rightarrow> Inl CL_invalid_mem_object
      | Some h \<Rightarrow>
          (case mem w h of
             None \<Rightarrow> Inl CL_invalid_mem_object
           | Some xs \<Rightarrow>
               if length xs < doff + len then Inl CL_invalid_value
               else if length host < hoff + len then Inl Out_of_bounds
               else Inr (Some (length (commands w)),
                 take hoff host @ take len (drop doff xs) @ drop (hoff + len) host,
                 w\<lparr>commands := commands w @ [Read_buffer d h blocking doff len hoff]\<rparr>)))"

text \<open>\<^verbatim>\<open>ev[d].wait()\<close>: waiting on a null event is an error of the runtime.\<close>

definition wait_event :: "cl_event \<Rightarrow> 'a world \<Rightarrow> vex_error + 'a world" where
  "wait_event e w =
     (case e of
        None \<Rightarrow> Inl CL_invalid_event
      | Some i \<Rightarrow> Inr (w\<lparr>commands := commands w @ [Wait_event i]\<rparr>))"

text \<open>
  The two bounds every loop of \<^verbatim>\<open>write_data\<close> and \<^verbatim>\<open>read_data\<close> computes for device
  \<open>d\<close>: \<^verbatim>\<open>start = std::max(offset, part[d])\<close> and
  \<^verbatim>\<open>stop = std::min(offset + size, part[d + 1])\<close>, in \<^verbatim>\<open>size_t\<close>.
\<close>

definition start_of :: "vector \<Rightarrow> size_t \<Rightarrow> nat \<Rightarrow> size_t" where
  "start_of v offset d = max offset (part v ! d)"

definition stop_of :: "vector \<Rightarrow> size_t \<Rightarrow> size_t \<Rightarrow> nat \<Rightarrow> size_t" where
  "stop_of v offset sz d = min (offset + sz) (part v ! (d + 1))"

text \<open>
  The body of the first loop of \<^verbatim>\<open>write_data\<close>. The state of the loop is the event vector
  \<open>ev\<close> and the world. Reading \<^verbatim>\<open>part[d + 1]\<close>, \<^verbatim>\<open>buf[d]\<close> or \<^verbatim>\<open>ev[d]\<close> outside the
  vector is undefined behaviour.
\<close>

definition write_step ::
  "vector \<Rightarrow> size_t \<Rightarrow> size_t \<Rightarrow> 'a list \<Rightarrow> cl_event list \<times> 'a world \<Rightarrow> nat
     \<Rightarrow> vex_error + cl_event list \<times> 'a world" where
  "write_step v offset sz host s d =
     (let (ev, w) = s in
      if length (part v) \<le> d + 1 then Inl Out_of_bounds
      else
        let start = start_of v offset d; stop = stop_of v offset sz d in
        if stop \<le> start then Inr (ev, w)
        else if length (buf v) \<le> d \<or> length ev \<le> d then Inl Out_of_bounds
        else
          (case enqueueWriteBuffer d (buf v ! d) False
                  (unat (start - part v ! d)) (unat (stop - start)) host (unat (start - offset)) w of
             Inl e \<Rightarrow> Inl e
           | Inr (e, w') \<Rightarrow> Inr (ev[d := e], w')))"

text \<open>The body of the first loop of \<^verbatim>\<open>read_data\<close>; the host array is part of the state.\<close>

definition read_step ::
  "vector \<Rightarrow> size_t \<Rightarrow> size_t \<Rightarrow> cl_event list \<times> 'a list \<times> 'a world \<Rightarrow> nat
     \<Rightarrow> vex_error + cl_event list \<times> 'a list \<times> 'a world" where
  "read_step v offset sz s d =
     (let (ev, host, w) = s in
      if length (part v) \<le> d + 1 then Inl Out_of_bounds
      else
        let start = start_of v offset d; stop = stop_of v offset sz d in
        if stop \<le> start then Inr (ev, host, w)
        else if length (buf v) \<le> d \<or> length ev \<le> d then Inl Out_of_bounds
        else
          (case enqueueReadBuffer d (buf v ! d) False
                  (unat (start - part v ! d)) (unat (stop - start)) host (unat (start - offset)) w of
             Inl e \<Rightarrow> Inl e
           | Inr (e, host', w') \<Rightarrow> Inr (ev[d := e], host', w')))"

text \<open>The body of the second loop of both: \<^verbatim>\<open>if (start < stop) ev[d].wait();\<close>\<close>

definition wait_step ::
  "vector \<Rightarrow> size_t \<Rightarrow> size_t \<Rightarrow> cl_event list \<Rightarrow> 'a world \<Rightarrow> nat \<Rightarrow> vex_error + 'a world" where
  "wait_step v offset sz ev w d =
     (if length (part v) \<le> d + 1 then Inl Out_of_bounds
      else if start_of v offset d < stop_of v offset sz d
      then (if length ev \<le> d then Inl Out_of_bounds else wait_event (ev ! d) w)
      else Inr w)"

text \<open>
  \<^verbatim>\<open>write_data(offset, size, hostptr, blocking, uevent)\<close> on the vector at \<open>this\<close>. The events
  go to \<^verbatim>\<open>*uevent\<close> when the caller passes one and to the member \<^verbatim>\<open>event\<close> otherwise; the
  result is the caller's event vector and the world.
\<close>

definition write_data ::
  "addr \<Rightarrow> size_t \<Rightarrow> size_t \<Rightarrow> 'a list \<Rightarrow> bool \<Rightarrow> cl_event list option \<Rightarrow> 'a world
     \<Rightarrow> vex_error + cl_event list option \<times> 'a world" where
  "write_data this offset sz host blocking uevent w =
     (if sz = 0 then Inr (uevent, w)
      else
        (case objects w this of
           None \<Rightarrow> Inl No_object
         | Some v \<Rightarrow>
             (case foldM (write_step v offset sz host)
                     (case uevent of Some u \<Rightarrow> u | None \<Rightarrow> event v, w) [0..<length (queue v)] of
                Inl e \<Rightarrow> Inl e
              | Inr (ev, w1) \<Rightarrow>
                  (case (if blocking then foldM (wait_step v offset sz ev) w1 [0..<length (queue v)]
                         else Inr w1) of
                     Inl e \<Rightarrow> Inl e
                   | Inr w2 \<Rightarrow>
                       (case uevent of
                          Some u \<Rightarrow> Inr (Some ev, w2)
                        | None \<Rightarrow> Inr (None, w2\<lparr>objects := (objects w2)(this \<mapsto> v\<lparr>event := ev\<rparr>)\<rparr>))))))"

text \<open>\<^verbatim>\<open>read_data\<close>: the result also holds the host array.\<close>

definition read_data ::
  "addr \<Rightarrow> size_t \<Rightarrow> size_t \<Rightarrow> 'a list \<Rightarrow> bool \<Rightarrow> cl_event list option \<Rightarrow> 'a world
     \<Rightarrow> vex_error + 'a list \<times> cl_event list option \<times> 'a world" where
  "read_data this offset sz host blocking uevent w =
     (if sz = 0 then Inr (host, uevent, w)
      else
        (case objects w this of
           None \<Rightarrow> Inl No_object
         | Some v \<Rightarrow>
             (case foldM (read_step v offset sz)
                     (case uevent of Some u \<Rightarrow> u | None \<Rightarrow> event v, host, w) [0..<length (queue v)] of
                Inl e \<Rightarrow> Inl e
              | Inr (ev, host', w1) \<Rightarrow>
                  (case (if blocking then foldM (wait_step v offset sz ev) w1 [0..<length (queue v)]
                         else Inr w1) of
                     Inl e \<Rightarrow> Inl e
                   | Inr w2 \<Rightarrow>
                       (case uevent of
                          Some u \<Rightarrow> Inr (host', Some ev, w2)
                        | None \<Rightarrow>
                            Inr (host', None, w2\<lparr>objects := (objects w2)(this \<mapsto> v\<lparr>event := ev\<rparr>)\<rparr>))))))"

text \<open>
  The two \<^verbatim>\<open>copy\<close> functions between a host vector and a device vector: the whole range of
  the device vector, from the start of the host array.
\<close>

definition copy_to_host :: "addr \<Rightarrow> 'a list \<Rightarrow> bool \<Rightarrow> 'a world \<Rightarrow> vex_error + 'a list \<times> 'a world" where
  "copy_to_host dv hv blocking w =
     (case objects w dv of
        None \<Rightarrow> Inl No_object
      | Some v \<Rightarrow>
          (case read_data dv 0 (vector_size v) hv blocking None w of
             Inl e \<Rightarrow> Inl e
           | Inr (hv', u, w') \<Rightarrow> Inr (hv', w')))"

definition copy_to_device :: "'a list \<Rightarrow> addr \<Rightarrow> bool \<Rightarrow> 'a world \<Rightarrow> vex_error + 'a world" where
  "copy_to_device hv dv blocking w =
     (case objects w dv of
        None \<Rightarrow> Inl No_object
      | Some v \<Rightarrow>
          (case write_data dv 0 (vector_size v) hv blocking None w of
             Inl e \<Rightarrow> Inl e
           | Inr (u, w') \<Rightarrow> Inr w'))"

subsection \<open>The state of a vector that owns its buffers\<close>

text \<open>\<^verbatim>\<open>part_size(d)\<close>: \<^verbatim>\<open>return part[d + 1] - part[d];\<close>\<close>

definition part_size :: "vector \<Rightarrow> nat \<Rightarrow> size_t" where
  "part_size v d = part v ! (d + 1) - part v ! d"

text \<open>
  What the constructors establish: \<open>part\<close> has one entry more than \<open>queue\<close>, \<open>buf\<close> and
  \<open>event\<close> have one entry per queue, and \<^verbatim>\<open>allocate_buffers\<close> has given every device with
  \<^verbatim>\<open>part[d + 1] - part[d]\<close> not zero a live buffer of that many elements.
\<close>

definition part_allocated :: "vector \<Rightarrow> 'a world \<Rightarrow> nat \<Rightarrow> bool" where
  "part_allocated v w d =
     (case buf v ! d of
        None \<Rightarrow> False
      | Some h \<Rightarrow> (case mem w h of None \<Rightarrow> False | Some xs \<Rightarrow> length xs = unat (part_size v d)))"

definition allocated :: "vector \<Rightarrow> 'a world \<Rightarrow> bool" where
  "allocated v w \<longleftrightarrow>
     length (part v) = length (queue v) + 1
     \<and> length (buf v) = length (queue v)
     \<and> length (event v) = length (queue v)
     \<and> list_all (\<lambda>d. part_size v d \<noteq> 0 \<longrightarrow> part_allocated v w d) [0..<length (queue v)]"

text \<open>
  A vector built over a partition table: the table starts at 0 and does not decrease, and
  the buffers of the devices are different buffers.
\<close>

definition wf_vector :: "vector \<Rightarrow> 'a world \<Rightarrow> bool" where
  "wf_vector v w \<longleftrightarrow>
     allocated v w
     \<and> part v ! 0 = 0
     \<and> sorted (part v)
     \<and> distinct (map (\<lambda>d. buf v ! d) (filter (\<lambda>d. part_size v d \<noteq> 0) [0..<length (queue v)]))"

subsection \<open>The transfers a range asks for\<close>

text \<open>
  The global range \<open>[offset, offset + size)\<close> of a transfer and the range
  \<open>[part[d], part[d + 1])\<close> of a device, as sets of indices. The indices are natural numbers
  and \<open>offset + size\<close> is the sum of the two numbers: the range of a call has \<open>size\<close>
  elements whatever the \<^verbatim>\<open>size_t\<close> sum of the code is. Then the devices whose range meets
  the global range, in order, and the bounds \<open>start\<close> and \<open>stop\<close> of the intersection.
\<close>

definition global_range :: "size_t \<Rightarrow> size_t \<Rightarrow> nat set" where
  "global_range offset sz = {i. unat offset \<le> i \<and> i < unat offset + unat sz}"

definition device_range :: "vector \<Rightarrow> nat \<Rightarrow> nat set" where
  "device_range v d = {i. unat (part v ! d) \<le> i \<and> i < unat (part v ! (d + 1))}"

definition intersecting :: "vector \<Rightarrow> size_t \<Rightarrow> size_t \<Rightarrow> nat list" where
  "intersecting v offset sz =
     filter (\<lambda>d. device_range v d \<inter> global_range offset sz \<noteq> {}) [0..<length (queue v)]"

definition range_start :: "vector \<Rightarrow> size_t \<Rightarrow> nat \<Rightarrow> nat" where
  "range_start v offset d = max (unat offset) (unat (part v ! d))"

definition range_stop :: "vector \<Rightarrow> size_t \<Rightarrow> size_t \<Rightarrow> nat \<Rightarrow> nat" where
  "range_stop v offset sz d = min (unat offset + unat sz) (unat (part v ! (d + 1)))"

text \<open>
  The command the first loop of \<^verbatim>\<open>write_data\<close> or of \<^verbatim>\<open>read_data\<close> issues for a device it does
  not skip, with the bounds the loop computes.
\<close>

definition write_transfer :: "vector \<Rightarrow> size_t \<Rightarrow> size_t \<Rightarrow> nat \<Rightarrow> command" where
  "write_transfer v offset sz d =
     Write_buffer d (the (buf v ! d)) False
       (unat (start_of v offset d - part v ! d))
       (unat (stop_of v offset sz d - start_of v offset d))
       (unat (start_of v offset d - offset))"

definition read_transfer :: "vector \<Rightarrow> size_t \<Rightarrow> size_t \<Rightarrow> nat \<Rightarrow> command" where
  "read_transfer v offset sz d =
     Read_buffer d (the (buf v ! d)) False
       (unat (start_of v offset d - part v ! d))
       (unat (stop_of v offset sz d - start_of v offset d))
       (unat (start_of v offset d - offset))"

subsection \<open>A vector on two devices\<close>

text \<open>
  A vector of six elements on two queues of one context, four elements on the first device
  and two on the second, at address 0, with zeroed buffers 10 and 11.
\<close>

definition example_queue :: "command_queue list" where
  "example_queue =
     [\<lparr>qctx = 0, qdev = \<lparr>device_id = 0, device_type_cpu = False, max_compute_units = 8\<rparr>\<rparr>,
      \<lparr>qctx = 0, qdev = \<lparr>device_id = 1, device_type_cpu = True, max_compute_units = 4\<rparr>\<rparr>]"

definition example_vector :: vector where
  "example_vector =
     \<lparr>queue = example_queue, part = [0, 4, 6], buf = [Some 10, Some 11], event = [None, None]\<rparr>"

definition example_world :: "nat world" where
  "example_world =
     \<lparr>objects = [0 \<mapsto> example_vector],
      mem = [10 \<mapsto> [0, 0, 0, 0], 11 \<mapsto> [0, 0]],
      commands = [],
      exdata_compiled = (\<lambda>s. Map.empty),
      exdata_kernel = (\<lambda>s. Map.empty),
      exdata_wgsize = (\<lambda>s. Map.empty),
      builds = [],
      stdout = []\<rparr>"

subsection \<open>Copy assignment\<close>

text \<open>
  \<^verbatim>\<open>enqueueCopyBuffer\<close> of the runtime: both buffers live, both ranges inside them, and no
  overlap when source and destination are the same buffer.
\<close>

definition enqueueCopyBuffer ::
  "nat \<Rightarrow> cl_buffer \<Rightarrow> cl_buffer \<Rightarrow> nat \<Rightarrow> nat \<Rightarrow> nat \<Rightarrow> 'a world \<Rightarrow> vex_error + 'a world" where
  "enqueueCopyBuffer d src dst soff doff len w =
     (case (src, dst) of
        (Some s, Some t) \<Rightarrow>
          (case (mem w s, mem w t) of
             (Some xs, Some ys) \<Rightarrow>
               if length xs < soff + len \<or> length ys < doff + len then Inl CL_invalid_value
               else if s = t \<and> soff < doff + len \<and> doff < soff + len then Inl CL_mem_copy_overlap
               else Inr (w\<lparr>mem := (mem w)(t \<mapsto> take doff ys @ take len (drop soff xs) @ drop (doff + len) ys),
                          commands := commands w @ [Copy_buffer d s t soff doff len]\<rparr>)
           | _ \<Rightarrow> Inl CL_invalid_mem_object)
      | _ \<Rightarrow> Inl CL_invalid_mem_object)"

text \<open>
  \<^verbatim>\<open>operator=(const vector &x)\<close> on the vector at \<open>this\<close>; \<open>x\<close> is the address of the
  argument, so \<^verbatim>\<open>&x != this\<close> compares the two addresses. The body of the loop copies
  \<^verbatim>\<open>psize\<close> elements from \<^verbatim>\<open>x.buf[d]\<close> to \<^verbatim>\<open>buf[d]\<close> when \<^verbatim>\<open>psize\<close> is not zero.
\<close>

definition copy_step :: "vector \<Rightarrow> vector \<Rightarrow> 'a world \<Rightarrow> nat \<Rightarrow> vex_error + 'a world" where
  "copy_step v x w d =
     (if length (part v) \<le> d + 1 then Inl Out_of_bounds
      else if part_size v d \<noteq> 0
      then (if length (buf x) \<le> d \<or> length (buf v) \<le> d then Inl Out_of_bounds
            else enqueueCopyBuffer d (buf x ! d) (buf v ! d) 0 0 (unat (part_size v d)) w)
      else Inr w)"

definition assign_vector :: "addr \<Rightarrow> addr \<Rightarrow> 'a world \<Rightarrow> vex_error + 'a world" where
  "assign_vector this x w =
     (if x \<noteq> this
      then (case objects w this of
              None \<Rightarrow> Inl No_object
            | Some v \<Rightarrow>
                (case objects w x of
                   None \<Rightarrow> Inl No_object
                 | Some xv \<Rightarrow> foldM (copy_step v xv) w [0..<length (queue v)]))
      else Inr w)"

subsection \<open>Swap and move\<close>

text \<open>The empty constructor \<^verbatim>\<open>vector() {}\<close> leaves the four members empty.\<close>

definition empty_vector :: vector where
  "empty_vector = \<lparr>queue = [], part = [], buf = [], event = []\<rparr>"

text \<open>\<^verbatim>\<open>swap(vector &v)\<close>: \<^verbatim>\<open>std::swap\<close> on each of the four members.\<close>

definition swap_vector :: "addr \<Rightarrow> addr \<Rightarrow> 'a world \<Rightarrow> vex_error + 'a world" where
  "swap_vector this v w =
     (case objects w this of
        None \<Rightarrow> Inl No_object
      | Some a \<Rightarrow>
          (case objects w v of
             None \<Rightarrow> Inl No_object
           | Some b \<Rightarrow>
               Inr (w\<lparr>objects := (objects w)
                     (this \<mapsto> a\<lparr>queue := queue b, part := part b, buf := buf b, event := event b\<rparr>,
                      v \<mapsto> b\<lparr>queue := queue a, part := part a, buf := buf a, event := event a\<rparr>)\<rparr>)))"

text \<open>
  The move constructor \<^verbatim>\<open>vector(vector &&v) { swap(v); }\<close> builds a new object at \<open>this\<close>,
  which is storage that holds no object yet: its members are default-initialised, then
  swapped with those of \<open>v\<close>. The move assignment is \<^verbatim>\<open>swap(v); return *this;\<close>.
\<close>

definition move_construct :: "addr \<Rightarrow> addr \<Rightarrow> 'a world \<Rightarrow> vex_error + 'a world" where
  "move_construct this v w = swap_vector this v (w\<lparr>objects := (objects w)(this \<mapsto> empty_vector)\<rparr>)"

definition move_assign :: "addr \<Rightarrow> addr \<Rightarrow> 'a world \<Rightarrow> vex_error + 'a world" where
  "move_assign this v w = swap_vector this v w"

subsection \<open>Assignment of an expression\<close>

text \<open>
  \<^verbatim>\<open>std::map::operator[]\<close> returns the value of a key and inserts the default value first
  when the key is absent.
\<close>

definition map_index :: "('k \<rightharpoonup> 'v) \<Rightarrow> 'k \<Rightarrow> 'v \<Rightarrow> 'v \<times> ('k \<rightharpoonup> 'v)" where
  "map_index m k dflt = (case m k of None \<Rightarrow> (dflt, m(k \<mapsto> dflt)) | Some x \<Rightarrow> (x, m))"

text \<open>
  A loop whose body may raise while the static maps keep what was stored before: the result
  is the exception, if any, and the state.
\<close>

fun foldS :: "('s \<Rightarrow> 'x \<Rightarrow> 'e option \<times> 's) \<Rightarrow> 's \<Rightarrow> 'x list \<Rightarrow> 'e option \<times> 's" where
  "foldS f s [] = (None, s)"
| "foldS f s (x # xs) = (case f s x of (Some e, s') \<Rightarrow> (Some e, s') | (None, s') \<Rightarrow> foldS f s' xs)"

text \<open>
  The body of the first loop of \<^verbatim>\<open>operator=(const Expr &expr)\<close>, for the queue \<open>q\<close>.
  \<^verbatim>\<open>exdata<Expr>::compiled[context()]\<close> is read with \<^verbatim>\<open>operator[]\<close>. When it is false the
  kernel source is generated and \<^verbatim>\<open>build_sources\<close> is called, which rethrows the error of a
  failed build; this call is entry number \<open>length (builds w)\<close> of \<open>builds\<close>, with its outcome,
  and the new kernel gets that number as its handle. Then the three maps are assigned in the
  order of the source: \<^verbatim>\<open>kernel\<close>, \<^verbatim>\<open>compiled\<close>, \<^verbatim>\<open>wgsize\<close>.
  \<^verbatim>\<open>kernel_workgroup_size\<close> is called with the device of the queue, and its \<^verbatim>\<open>uint\<close> widens
  to the \<^verbatim>\<open>size_t\<close> of the map.
\<close>

definition compile_step ::
  "'a cl_runtime \<Rightarrow> shape \<Rightarrow> 'a world \<Rightarrow> command_queue \<Rightarrow> vex_error option \<times> 'a world" where
  "compile_step rt sh w q =
     (let context = qctx q;
          device = qdev q;
          (c, cm) = map_index (exdata_compiled w sh) context False;
          w0 = w\<lparr>exdata_compiled := (exdata_compiled w)(sh := cm)\<rparr>
      in if \<not> c
         then
           (let k = length (builds w0);
                ok = build_ok rt sh context k;
                w1 = w0\<lparr>builds := builds w0 @ [(sh, context, ok)]\<rparr>
            in if ok
               then
                 (let w2 = w1\<lparr>exdata_kernel :=
                             (exdata_kernel w1)(sh := (exdata_kernel w1 sh)(context \<mapsto> Some k))\<rparr>;
                      w3 = w2\<lparr>exdata_compiled :=
                             (exdata_compiled w2)(sh := (exdata_compiled w2 sh)(context \<mapsto> True))\<rparr>;
                      w4 = w3\<lparr>exdata_wgsize :=
                             (exdata_wgsize w3)(sh := (exdata_wgsize w3 sh)(context \<mapsto>
                                ucast (kernel_workgroup_size (work_group_info rt) k [device])))\<rparr>
                  in (None, w4))
               else (Some CL_build_program_failure, w1))
         else (None, w0))"

text \<open>
  The body of the second loop, for device \<open>d\<close>: nothing for an empty part; otherwise the
  global size (the part rounded up to the work-group size on a CPU,
  \<^verbatim>\<open>compute units * wgsize * 4\<close> elsewhere), the arguments and the launch. Both maps are read
  with \<^verbatim>\<open>operator[]\<close>. \<^verbatim>\<open>alignup(psize, 0)\<close> divides by zero; \<^verbatim>\<open>setArg\<close> on a null kernel
  and a launch with a local size of zero are errors of the runtime. The arguments of the
  terminals are bound by operations.hpp, which is not among the sources: the launch
  records the first two arguments, and what the kernel does to the buffers is
  \<open>run_kernel\<close> of the runtime.
\<close>

definition dispatch_step ::
  "'a cl_runtime \<Rightarrow> 'a expr \<Rightarrow> vector \<Rightarrow> 'a world \<Rightarrow> nat \<Rightarrow> vex_error option \<times> 'a world" where
  "dispatch_step rt e v w d =
     (if length (part v) \<le> d + 1 then (Some Out_of_bounds, w)
      else if part_size v d \<noteq> 0
      then
        (if length (queue v) \<le> d \<or> length (buf v) \<le> d then (Some Out_of_bounds, w)
         else
           (let psize = part_size v d;
                context = qctx (queue v ! d);
                device = qdev (queue v ! d);
                (wg, wm) = map_index (exdata_wgsize w (shape_of e)) context 0;
                (k, km) = map_index (exdata_kernel w (shape_of e)) context None;
                w0 = w\<lparr>exdata_wgsize := (exdata_wgsize w)(shape_of e := wm),
                       exdata_kernel := (exdata_kernel w)(shape_of e := km)\<rparr>
            in if device_type_cpu device \<and> wg = 0 then (Some Division_by_zero, w0)
               else
                 (let g_size = (if device_type_cpu device then alignup psize wg
                                else ucast (max_compute_units device) * wg * 4)
                  in case k of
                       None \<Rightarrow> (Some CL_invalid_kernel, w0)
                     | Some kh \<Rightarrow>
                         if wg = 0 then (Some CL_invalid_work_group_size, w0)
                         else (None,
                           w0\<lparr>mem := run_kernel rt e d (mem w0),
                              commands := commands w0 @ [NDRange_kernel d kh psize (buf v ! d) g_size wg]\<rparr>))))
      else (None, w))"

text \<open>\<^verbatim>\<open>operator=(const Expr &expr)\<close> on the vector at \<open>this\<close>: compile, then launch.\<close>

definition assign_expr ::
  "'a cl_runtime \<Rightarrow> addr \<Rightarrow> 'a expr \<Rightarrow> 'a world \<Rightarrow> vex_error option \<times> 'a world" where
  "assign_expr rt this e w =
     (case objects w this of
        None \<Rightarrow> (Some No_object, w)
      | Some v \<Rightarrow>
          (case foldS (compile_step rt (shape_of e)) w (queue v) of
             (Some err, w1) \<Rightarrow> (Some err, w1)
           | (None, w1) \<Rightarrow> foldS (dispatch_step rt e v) w1 [0..<length (queue v)]))"







subsection \<open>Compound assignment\<close>

text \<open>
  The macro \<^verbatim>\<open>COMPOUND_ASSIGNMENT(cop, op)\<close> defines \<^verbatim>\<open>operator cop\<close> as
  \<^verbatim>\<open>return *this = *this op expr;\<close> and is used ten times.
\<close>

datatype compound_op =
    Plus_assign | Minus_assign | Multiplies_assign | Divides_assign | Modulus_assign
  | Bitwise_and_assign | Bitwise_or_assign | Bitwise_xor_assign
  | Shift_left_assign | Shift_right_assign

fun op_of :: "compound_op \<Rightarrow> tag" where
  "op_of Plus_assign = Plus"
| "op_of Minus_assign = Minus"
| "op_of Multiplies_assign = Multiplies"
| "op_of Divides_assign = Divides"
| "op_of Modulus_assign = Modulus"
| "op_of Bitwise_and_assign = Bitwise_and"
| "op_of Bitwise_or_assign = Bitwise_or"
| "op_of Bitwise_xor_assign = Bitwise_xor"
| "op_of Shift_left_assign = Shift_left"
| "op_of Shift_right_assign = Shift_right"

definition compound_assignment ::
  "'a cl_runtime \<Rightarrow> compound_op \<Rightarrow> addr \<Rightarrow> 'a expr \<Rightarrow> 'a world \<Rightarrow> vex_error option \<times> 'a world" where
  "compound_assignment rt cop this e w =
     assign_expr rt this (Node (op_of cop) [Vector_terminal this, e]) w"

text \<open>
  The statement \<^verbatim>\<open>x = x op e\<close>, written out by the caller: the binary expression of the
  operator \<open>op\<close> with the terminal of \<open>x\<close> on the left and \<open>e\<close> on the right, assigned to \<open>x\<close>.
\<close>

definition assign_binary ::
  "'a cl_runtime \<Rightarrow> addr \<Rightarrow> tag \<Rightarrow> 'a expr \<Rightarrow> 'a world \<Rightarrow> vex_error option \<times> 'a world" where
  "assign_binary rt x t e w = assign_expr rt x (Node t [Vector_terminal x, e]) w"

subsection \<open>Assignment of a sparse matrix-vector product\<close>

text \<open>
  \<^verbatim>\<open>operator=(const spmv_expression<Expr> &expr)\<close> evaluates the expression in an
  \<^verbatim>\<open>assign_spmv_context\<close>, which has a case for the tag \<^verbatim>\<open>plus\<close> and a case for the tag
  \<^verbatim>\<open>terminal\<close>. Both write to \<^verbatim>\<open>std::cout\<close>; of the lines only the literal prefixes are
  kept, the size and the dump of the expression that follow them come from the compiler and
  from Boost. The \<^verbatim>\<open>plus\<close> case assigns the left operand to the vector and calls \<^verbatim>\<open>mul\<close> of
  the product, a member of spmat.hpp that is not among the sources: the parameter \<open>mul\<close>.
  The \<^verbatim>\<open>terminal\<close> case only prints: its call \<^verbatim>\<open>//spmv.mul(ctx.v);\<close> is commented out.
\<close>

fun assign_spmv ::
  "'a cl_runtime \<Rightarrow> ('a spmv \<Rightarrow> addr \<Rightarrow> 'a world \<Rightarrow> vex_error option \<times> 'a world) \<Rightarrow> addr
     \<Rightarrow> 'a spmv_expression \<Rightarrow> 'a world \<Rightarrow> vex_error option \<times> 'a world" where
  "assign_spmv rt mul this (Spmv_plus l s) w =
     (case assign_expr rt this l (w\<lparr>stdout := stdout w @ [''left: '', ''right: '']\<rparr>) of
        (Some err, w1) \<Rightarrow> (Some err, w1)
      | (None, w1) \<Rightarrow> mul s this w1)"
| "assign_spmv rt mul this (Spmv_terminal s) w = (None, w\<lparr>stdout := stdout w @ [''spmv: '']\<rparr>)"

text \<open>
  Two vectors of four elements on one device: the target at address 0, zeroed, and \<open>x\<close> at
  address 1; the 4 x 4 identity matrix; and the two vectors of the two-device example with a
  second vector at address 1.
\<close>

definition one_queue :: "command_queue list" where
  "one_queue = [\<lparr>qctx = 0, qdev = \<lparr>device_id = 0, device_type_cpu = False, max_compute_units = 8\<rparr>\<rparr>]"

definition spmv_world :: "nat world" where
  "spmv_world =
     \<lparr>objects = [0 \<mapsto> \<lparr>queue = one_queue, part = [0, 4], buf = [Some 20], event = [None]\<rparr>,
                 1 \<mapsto> \<lparr>queue = one_queue, part = [0, 4], buf = [Some 21], event = [None]\<rparr>],
      mem = [20 \<mapsto> [0, 0, 0, 0], 21 \<mapsto> [1, 2, 3, 4]],
      commands = [],
      exdata_compiled = (\<lambda>s. Map.empty),
      exdata_kernel = (\<lambda>s. Map.empty),
      exdata_wgsize = (\<lambda>s. Map.empty),
      builds = [],
      stdout = []\<rparr>"

definition identity4 :: "nat spmat" where
  "identity4 = \<lparr>row = [0, 1, 2, 3, 4], col = [0, 1, 2, 3], val = [1, 1, 1, 1]\<rparr>"

definition other_vector :: vector where
  "other_vector =
     \<lparr>queue = example_queue, part = [0, 2, 6], buf = [Some 12, Some 13], event = [None, None]\<rparr>"

definition two_vectors_world :: "nat world" where
  "two_vectors_world =
     example_world\<lparr>objects := [0 \<mapsto> example_vector, 1 \<mapsto> other_vector],
       mem := [10 \<mapsto> [0, 0, 0, 0], 11 \<mapsto> [0, 0], 12 \<mapsto> [5, 5], 13 \<mapsto> [5, 5, 5, 5]]\<rparr>"


section \<open>Properties of util.hpp\<close>

subsection \<open>partition_equally\<close>

text \<open>
  C1. The claim asks, for every length \<open>n\<close> and every \<open>D \<ge> 1\<close> queues, for a non-decreasing
  table of \<open>D + 1\<close> offsets from 0 to \<open>n\<close>. For \<open>n = 4294967295\<close> and two queues the sum
  \<^verbatim>\<open>n + m - 1\<close> wraps around to 0 in \<^verbatim>\<open>uint\<close>, the chunk size is 0 and the table is
  \<open>[0, 0, 0]\<close>: its last entry is not \<open>n\<close>.
\<close>

theorem partition_equally_wraps_around:
  "partition_equally 4294967295 2 = [0, 0, 0]"
  by code_simp

lemma replicate_two: "replicate 2 x = [x, x]"
  by (simp add: numeral_2_eq_2)

text \<open>One queue: the table is \<open>[0, n]\<close>, for every \<open>n\<close>.\<close>

lemma partition_equally_single: "partition_equally n 1 = [0, n]"
  by (simp add: partition_equally_def replicate_two)

lemma alignup16_unat:
  assumes "unat q < 2 ^ 31"
  shows "unat (alignup q (16 :: uint)) = (if unat q mod 16 \<noteq> 0 then unat q - unat q mod 16 + 16 else unat q)"
proof (cases "q mod 16 = 0")
  case True
  then have "unat (q mod 16) = 0" by simp
  then have "unat q mod 16 = 0" by (simp add: unat_mod)
  with True show ?thesis by (simp add: alignup_def)
next
  case False
  then have "unat (q mod 16) \<noteq> 0" by (simp add: unat_eq_0)
  then have nz: "unat q mod 16 \<noteq> 0" by (simp add: unat_mod)
  have le: "q mod 16 \<le> q" by (simp add: word_le_nat_alt unat_mod)
  have 1: "unat (q - q mod 16) = unat q - unat q mod 16"
    using unat_sub [OF le] by (simp add: unat_mod)
  have "unat (q - q mod 16) + unat (16 :: uint) < 2 ^ LENGTH(32)"
    using 1 assms by simp
  then have "unat (q - q mod 16 + 16) = unat (q - q mod 16) + unat (16 :: uint)"
    by (rule unat_add_lem [THEN iffD1])
  with 1 False nz show ?thesis by (simp add: alignup_def)
qed

lemma unat_min: "unat (min a b) = min (unat a) (unat (b :: 'a::len word))"
  by (simp add: min_def word_le_nat_alt)

lemma min_step:
  "min N (min N (k * c) + c) = min (N :: nat) (Suc k * c)"
  by (simp add: min_def)

lemma partition_loop:
  fixes n chunk :: uint
  assumes nowrap: "unat n + unat chunk < 2 ^ 32"
    and len: "length part0 = D + 1"
    and zero: "\<forall>i\<le>D. part0 ! i = 0"
    and k: "k \<le> D"
  shows "length (foldl (partition_step n chunk) part0 [0..<k]) = D + 1
     \<and> (\<forall>i\<le>k. unat (foldl (partition_step n chunk) part0 [0..<k] ! i) = min (unat n) (i * unat chunk))
     \<and> (\<forall>i. k < i \<and> i \<le> D \<longrightarrow> foldl (partition_step n chunk) part0 [0..<k] ! i = 0)"
  using k
proof (induction k)
  case 0
  with len zero show ?case by simp
next
  case (Suc k)
  let ?p = "foldl (partition_step n chunk) part0 [0..<k]"
  let ?q = "?p[k + 1 := min n (?p ! k + chunk)]"
  from Suc have k: "k < D" by simp
  with Suc.IH have plen: "length ?p = D + 1"
    and upto: "\<forall>i\<le>k. unat (?p ! i) = min (unat n) (i * unat chunk)"
    and rest: "\<forall>i. k < i \<and> i \<le> D \<longrightarrow> ?p ! i = 0"
    by simp_all
  have q: "foldl (partition_step n chunk) part0 [0..<Suc k] = ?q"
    by (simp add: partition_step_def)
  from upto have pk: "unat (?p ! k) = min (unat n) (k * unat chunk)" by simp
  then have "unat (?p ! k) + unat chunk < 2 ^ LENGTH(32)"
    using nowrap by simp
  then have "unat (?p ! k + chunk) = unat (?p ! k) + unat chunk"
    by (rule unat_add_lem [THEN iffD1])
  then have new: "unat (min n (?p ! k + chunk)) = min (unat n) (Suc k * unat chunk)"
    using pk by (simp only: unat_min min_step)
  have 1: "length ?q = D + 1" using plen by simp
  have 2: "unat (?q ! i) = min (unat n) (i * unat chunk)" if "i \<le> Suc k" for i
  proof (cases "i = Suc k")
    case True
    with k plen new show ?thesis by simp
  next
    case False
    with that have "i \<le> k" by simp
    with upto False show ?thesis by simp
  qed
  have 3: "?q ! i = 0" if "Suc k < i \<and> i \<le> D" for i
    using that rest by simp
  from 1 2 3 show ?case unfolding q by blast
qed

lemma ceil_div_covers: "0 < D \<Longrightarrow> (N :: nat) \<le> D * ((N + D - 1) div D)"
proof -
  assume D: "0 < D"
  have "N + D - 1 < D * ((N + D - 1) div D) + D"
    using D dividend_less_times_div [of D "N + D - 1"] by (simp add: ac_simps)
  then show ?thesis using D by simp
qed

lemma alignup16_ge:
  assumes "unat q < 2 ^ 31"
  shows "unat q \<le> unat (alignup q (16 :: uint))"
proof -
  have "unat q mod 16 < 16" by simp
  moreover have "unat q mod 16 \<le> unat q" by (rule mod_less_eq_dividend)
  ultimately have "unat q \<le> unat q - unat q mod 16 + 16" by linarith
  then show ?thesis by (simp add: alignup16_unat [OF assms])
qed

text \<open>
  Where nothing wraps around, that is for lengths \<open>n\<close> with \<open>n + D - 1\<close> and
  \<open>n + chunk_size\<close> below \<open>2 ^ 32\<close>, the table of \<open>D > 1\<close> queues has \<open>D + 1\<close> entries,
  starts at 0, ends at \<open>n\<close>, does not decrease, and every entry is the minimum of \<open>n\<close> and
  its predecessor plus the chunk size.
\<close>

lemma partition_equally_no_wrap:
  fixes n :: uint
  assumes D: "1 < D" "D + 1 < 2 ^ 32"
    and w1: "unat n + D - 1 < 2 ^ 32"
    and w2: "unat n + unat (alignup ((n + word_of_nat D - 1) div word_of_nat D) 16) < 2 ^ 32"
  shows "length (partition_equally n D) = D + 1"
    and "partition_equally n D ! 0 = 0"
    and "last (partition_equally n D) = n"
    and "sorted (partition_equally n D)"
    and "\<forall>i<D. partition_equally n D ! (i + 1)
          = min n (partition_equally n D ! i + alignup ((n + word_of_nat D - 1) div word_of_nat D) 16)"
proof -
  let ?m = "word_of_nat D :: uint"
  let ?chunk = "alignup ((n + ?m - 1) div ?m) 16"
  let ?c = "unat ?chunk"
  let ?N = "unat n"
  have m: "unat ?m = D"
    using D by (simp add: unat_of_nat)
  have "unat ?m + unat (1 :: uint) < 2 ^ LENGTH(32)"
    using D m by simp
  then have "unat (?m + 1) = unat ?m + unat (1 :: uint)"
    by (rule unat_add_lem [THEN iffD1])
  then have m1: "unat (?m + 1) = D + 1" using m by simp
  let ?part0 = "(replicate (unat (?m + 1)) (0 :: uint))[0 := 0]"
  have p: "partition_equally n D = foldl (partition_step n ?chunk) ?part0 [0..<D]"
    using D m by (simp add: partition_equally_def Let_def)
  have len0: "length ?part0 = D + 1" using m1 by simp
  have zero0: "\<forall>i\<le>D. ?part0 ! i = 0"
    using m1 by (auto simp: nth_Cons split: nat.splits)
  have nowrap: "?N + ?c < 2 ^ 32" using w2 by simp
  note loop = partition_loop [OF nowrap len0 zero0]
  let ?p = "partition_equally n D"
  have plen: "length ?p = D + 1"
    using loop [of D] by (simp add: p)
  have val: "unat (?p ! i) = min ?N (i * ?c)" if "i \<le> D" for i
    using loop [of D] that by (simp add: p)
  show "length ?p = D + 1" by (rule plen)
  show "?p ! 0 = 0"
    using val [of 0] by (simp add: unat_eq_0)
  \<comment> \<open>the chunk is at least the rounded-up quotient\<close>
  have "?m \<noteq> 0" using m D by auto
  then have "unat (?m - 1) = D - 1"
    using m by (simp add: unat_minus_one)
  then have "unat n + unat (?m - 1) < 2 ^ LENGTH(32)"
    using w1 D by simp
  then have "unat (n + (?m - 1)) = ?N + unat (?m - 1)"
    by (rule unat_add_lem [THEN iffD1])
  then have sum: "unat (n + ?m - 1) = ?N + D - 1"
    using \<open>unat (?m - 1) = D - 1\<close> D by (simp add: add_diff_eq)
  have quot: "unat ((n + ?m - 1) div ?m) = (?N + D - 1) div D"
    by (simp add: unat_div sum m)
  have "(?N + D - 1) div D \<le> (?N + D - 1) div 2"
    using D by (intro div_le_mono2) simp_all
  also have "\<dots> < 2 ^ 31" using w1 by simp
  finally have small: "unat ((n + ?m - 1) div ?m) < 2 ^ 31"
    by (simp add: quot)
  have "(?N + D - 1) div D \<le> ?c"
    using alignup16_ge [OF small] by (simp only: quot)
  then have "D * ((?N + D - 1) div D) \<le> D * ?c"
    by (rule mult_le_mono2)
  moreover have "?N \<le> D * ((?N + D - 1) div D)"
    using D by (intro ceil_div_covers) simp
  ultimately have cover: "?N \<le> D * ?c"
    by (rule order_trans [rotated])
  have "unat (?p ! D) = ?N"
    using val [of D] cover by simp
  then have "?p ! D = n" by (simp only: word_unat_eq_iff)
  moreover have "?p \<noteq> []" using plen by auto
  then have "last ?p = ?p ! (length ?p - 1)"
    by (rule last_conv_nth)
  then have "last ?p = ?p ! D"
    using plen by simp
  ultimately show "last ?p = n" by simp
  show "sorted ?p"
  proof (subst sorted_iff_nth_mono, intro allI impI)
    fix i j assume "i \<le> j" and "j < length ?p"
    then have "i \<le> D" "j \<le> D" using plen by simp_all
    then have "unat (?p ! i) = min ?N (i * ?c)" "unat (?p ! j) = min ?N (j * ?c)"
      using val by simp_all
    moreover have "i * ?c \<le> j * ?c" using \<open>i \<le> j\<close> by simp
    ultimately have "unat (?p ! i) \<le> unat (?p ! j)"
      by (simp add: min_le_iff_disj)
    then show "?p ! i \<le> ?p ! j" by (simp add: word_le_nat_alt)
  qed
  show "\<forall>i<D. ?p ! (i + 1) = min n (?p ! i + ?chunk)"
  proof (intro allI impI)
    fix i assume i: "i < D"
    then have a: "unat (?p ! i) = min ?N (i * ?c)" and b: "unat (?p ! (i + 1)) = min ?N (Suc i * ?c)"
      using val [of i] val [of "i + 1"] by simp_all
    from a have "unat (?p ! i) + ?c < 2 ^ LENGTH(32)"
      using nowrap by simp
    then have "unat (?p ! i + ?chunk) = unat (?p ! i) + ?c"
      by (rule unat_add_lem [THEN iffD1])
    then have "unat (min n (?p ! i + ?chunk)) = min ?N (Suc i * ?c)"
      using a by (simp only: unat_min min_step)
    with b have "unat (?p ! (i + 1)) = unat (min n (?p ! i + ?chunk))" by simp
    then show "?p ! (i + 1) = min n (?p ! i + ?chunk)"
      by (simp only: word_unat_eq_iff)
  qed
qed

subsection \<open>kernel_workgroup_size\<close>

lemma halve_until_le_limit: "halve_until w d \<le> d"
proof (induction w d rule: halve_until.induct)
  case (1 wgsz dev_wgsz)
  then show ?case
    by (cases "dev_wgsz < wgsz") (simp_all add: halve_until.simps [of wgsz dev_wgsz])
qed

lemma halve_until_le_start: "halve_until w d \<le> w"
proof (induction w d rule: halve_until.induct)
  case (1 wgsz dev_wgsz)
  show ?case
  proof (cases "dev_wgsz < wgsz")
    case True
    have "wgsz div 2 \<le> wgsz"
      by (simp add: word_le_nat_alt unat_div)
    with True 1 show ?thesis
      by (simp add: halve_until.simps [of wgsz dev_wgsz])
  next
    case False
    then show ?thesis
      by (simp add: halve_until.simps [of wgsz dev_wgsz])
  qed
qed

lemma halve_until_form: "\<exists>k. unat (halve_until w d) = unat w div 2 ^ k"
proof (induction w d rule: halve_until.induct)
  case (1 wgsz dev_wgsz)
  show ?case
  proof (cases "dev_wgsz < wgsz")
    case True
    with 1 obtain k where "unat (halve_until (wgsz div 2) dev_wgsz) = unat (wgsz div 2) div 2 ^ k"
      by blast
    then have "unat (halve_until wgsz dev_wgsz) = unat wgsz div 2 ^ Suc k"
      using True by (simp add: halve_until.simps [of wgsz dev_wgsz] unat_div div_mult2_eq)
    then show ?thesis ..
  next
    case False
    then have "unat (halve_until wgsz dev_wgsz) = unat wgsz div 2 ^ 0"
      by (simp add: halve_until.simps [of wgsz dev_wgsz])
    then show ?thesis ..
  qed
qed

lemma halve_until_greatest:
  "unat w div 2 ^ j \<le> unat d \<Longrightarrow> unat w div 2 ^ j \<le> unat (halve_until w d)"
proof (induction w d arbitrary: j rule: halve_until.induct)
  case (1 wgsz dev_wgsz)
  show ?case
  proof (cases "dev_wgsz < wgsz")
    case True
    then have "unat dev_wgsz < unat wgsz"
      by (simp add: word_less_nat_alt)
    with "1.prems" obtain i where j: "j = Suc i"
      by (cases j) auto
    with "1.prems" have "unat (wgsz div 2) div 2 ^ i \<le> unat dev_wgsz"
      by (simp add: unat_div div_mult2_eq)
    with True have "unat (wgsz div 2) div 2 ^ i \<le> unat (halve_until (wgsz div 2) dev_wgsz)"
      by (rule "1.IH")
    with True j show ?thesis
      by (simp add: halve_until.simps [of wgsz dev_wgsz] unat_div div_mult2_eq)
  next
    case False
    have "unat wgsz div 2 ^ j \<le> unat wgsz"
      by (rule div_le_dividend)
    with False show ?thesis
      by (simp add: halve_until.simps [of wgsz dev_wgsz])
  qed
qed

text \<open>The loop over the devices, from any starting size.\<close>

lemma wg_fold_le_start:
  "foldl (\<lambda>wgsz d. halve_until wgsz (g d)) w ds \<le> w"
proof (induction ds arbitrary: w)
  case Nil
  show ?case by simp
next
  case (Cons d ds)
  have "foldl (\<lambda>wgsz d. halve_until wgsz (g d)) (halve_until w (g d)) ds \<le> halve_until w (g d)"
    by (rule Cons.IH)
  also have "halve_until w (g d) \<le> w"
    by (rule halve_until_le_start)
  finally show ?case by simp
qed

lemma wg_fold_le_limit:
  "d \<in> set ds \<Longrightarrow> foldl (\<lambda>wgsz d. halve_until wgsz (g d)) w ds \<le> g d"
proof (induction ds arbitrary: w)
  case Nil
  then show ?case by simp
next
  case (Cons a ds)
  show ?case
  proof (cases "d = a")
    case True
    have "foldl (\<lambda>wgsz d. halve_until wgsz (g d)) (halve_until w (g a)) ds \<le> halve_until w (g a)"
      by (rule wg_fold_le_start)
    also have "halve_until w (g a) \<le> g a"
      by (rule halve_until_le_limit)
    finally show ?thesis using True by simp
  next
    case False
    with Cons.prems have "d \<in> set ds" by simp
    then show ?thesis by (simp add: Cons.IH)
  qed
qed

lemma wg_fold_form:
  "\<exists>k. unat (foldl (\<lambda>wgsz d. halve_until wgsz (g d)) w ds) = unat w div 2 ^ k"
proof (induction ds arbitrary: w)
  case Nil
  show ?case by (rule exI [of _ 0]) simp
next
  case (Cons d ds)
  obtain a where a: "unat (halve_until w (g d)) = unat w div 2 ^ a"
    using halve_until_form by blast
  obtain b where "unat (foldl (\<lambda>wgsz d. halve_until wgsz (g d)) (halve_until w (g d)) ds)
      = unat (halve_until w (g d)) div 2 ^ b"
    using Cons.IH by blast
  with a have "unat (foldl (\<lambda>wgsz d. halve_until wgsz (g d)) w (d # ds)) = unat w div 2 ^ (a + b)"
    by (simp add: power_add div_mult2_eq)
  then show ?case ..
qed

lemma wg_fold_greatest:
  "\<forall>d\<in>set ds. unat w div 2 ^ j \<le> unat (g d) \<Longrightarrow>
   unat w div 2 ^ j \<le> unat (foldl (\<lambda>wgsz d. halve_until wgsz (g d)) w ds)"
proof (induction ds arbitrary: w j)
  case Nil
  show ?case by simp
next
  case (Cons d ds)
  let ?r = "halve_until w (g d)"
  from Cons.prems have le: "unat w div 2 ^ j \<le> unat ?r"
    by (simp add: halve_until_greatest)
  obtain k where k: "unat ?r = unat w div 2 ^ k"
    using halve_until_form by blast
  have "\<exists>i. unat w div 2 ^ j = unat ?r div 2 ^ i"
  proof (cases "k \<le> j")
    case True
    then have "unat w div 2 ^ j = unat ?r div 2 ^ (j - k)"
      by (simp add: k div_mult2_eq [symmetric] power_add [symmetric])
    then show ?thesis ..
  next
    case False
    then have "(2::nat) ^ j \<le> 2 ^ k"
      by (simp add: power_increasing)
    then have "unat w div 2 ^ k \<le> unat w div 2 ^ j"
      by (simp add: div_le_mono2)
    with le k have "unat w div 2 ^ j = unat ?r div 2 ^ 0"
      by simp
    then show ?thesis ..
  qed
  then obtain i where i: "unat w div 2 ^ j = unat ?r div 2 ^ i" ..
  with Cons.prems have "\<forall>d\<in>set ds. unat ?r div 2 ^ i \<le> unat (g d)"
    by simp
  then have "unat ?r div 2 ^ i \<le> unat (foldl (\<lambda>wgsz d. halve_until wgsz (g d)) ?r ds)"
    by (rule Cons.IH)
  with i show ?case by simp
qed

lemma div_1024_pow2:
  assumes "0 < (1024::nat) div 2 ^ k"
  shows "k \<le> 10 \<and> (1024::nat) div 2 ^ k = 2 ^ (10 - k)"
proof -
  have k: "k \<le> 10"
  proof (rule ccontr)
    assume "\<not> k \<le> 10"
    then have "11 \<le> k" by simp
    then have "(2::nat) ^ 11 \<le> 2 ^ k"
      by (rule power_increasing) simp
    then have "(1024::nat) < 2 ^ k" by simp
    with assms show False by simp
  qed
  then have "(1024::nat) = 2 ^ (10 - k) * 2 ^ k"
    by (simp add: power_add [symmetric])
  then have "(1024::nat) div 2 ^ k = 2 ^ (10 - k) * 2 ^ k div 2 ^ k"
    by (rule arg_cong)
  also have "\<dots> = 2 ^ (10 - k)"
    by (rule nonzero_mult_div_cancel_right) simp
  finally have "(1024::nat) div 2 ^ k = 2 ^ (10 - k)" .
  with k show ?thesis ..
qed

text \<open>
  C9. When every device reports a positive maximum work-group size, the result of
  \<open>kernel_workgroup_size\<close> is \<open>1024 / 2 ^ k\<close> for some \<open>k \<le> 10\<close>, hence a power of two; it
  is at most every device's maximum; every value \<open>1024 / 2 ^ j\<close> that is at most every
  device's maximum is at most the result; and the result is 1024 when every device reports at
  least 1024.
\<close>

theorem kernel_workgroup_size_greatest_halving:
  assumes pos: "\<forall>d\<in>set device. 0 < getWorkGroupInfo krn d"
  shows "\<exists>k\<le>10.
           unat (kernel_workgroup_size getWorkGroupInfo krn device) = 1024 div 2 ^ k
         \<and> unat (kernel_workgroup_size getWorkGroupInfo krn device) = 2 ^ (10 - k)
         \<and> (\<forall>d\<in>set device. kernel_workgroup_size getWorkGroupInfo krn device \<le> getWorkGroupInfo krn d)
         \<and> (\<forall>j. (\<forall>d\<in>set device. 1024 div 2 ^ j \<le> unat (getWorkGroupInfo krn d))
                \<longrightarrow> 1024 div 2 ^ j \<le> unat (kernel_workgroup_size getWorkGroupInfo krn device))
         \<and> ((\<forall>d\<in>set device. 1024 \<le> getWorkGroupInfo krn d)
                \<longrightarrow> kernel_workgroup_size getWorkGroupInfo krn device = 1024)"
proof -
  let ?g = "getWorkGroupInfo krn"
  let ?r = "kernel_workgroup_size getWorkGroupInfo krn device"
  have r: "?r = foldl (\<lambda>wgsz d. halve_until wgsz (?g d)) 1024 device"
    by (simp add: kernel_workgroup_size_def)
  have start: "unat (1024::uint) = 1024" by simp
  have greatest: "1024 div 2 ^ j \<le> unat ?r"
    if "\<forall>d\<in>set device. 1024 div 2 ^ j \<le> unat (?g d)" for j
    using wg_fold_greatest [of device 1024 j ?g] that by (simp add: r)
  have "\<forall>d\<in>set device. (1024::nat) div 2 ^ 10 \<le> unat (?g d)"
  proof
    fix d assume "d \<in> set device"
    with pos have "0 < ?g d" by blast
    then have "0 < unat (?g d)" by (simp add: word_less_nat_alt)
    then show "(1024::nat) div 2 ^ 10 \<le> unat (?g d)" by simp
  qed
  then have "(1024::nat) div 2 ^ 10 \<le> unat ?r"
    by (rule greatest)
  then have rpos: "0 < unat ?r" by simp
  obtain k where k: "unat ?r = 1024 div 2 ^ k"
    using wg_fold_form [of ?g 1024 device] by (auto simp: r)
  with rpos have "0 < (1024::nat) div 2 ^ k" by simp
  then have k10: "k \<le> 10" and p2: "(1024::nat) div 2 ^ k = 2 ^ (10 - k)"
    using div_1024_pow2 by blast+
  have limit: "\<forall>d\<in>set device. ?r \<le> ?g d"
    by (simp add: r wg_fold_le_limit)
  have top: "?r = 1024" if "\<forall>d\<in>set device. 1024 \<le> ?g d"
  proof -
    from that have "\<forall>d\<in>set device. (1024::nat) div 2 ^ 0 \<le> unat (?g d)"
      by (simp add: word_le_nat_alt)
    then have "(1024::nat) div 2 ^ 0 \<le> unat ?r"
      by (rule greatest)
    moreover have "?r \<le> 1024"
      by (simp add: r wg_fold_le_start)
    then have "unat ?r \<le> 1024"
      by (simp add: word_le_nat_alt)
    ultimately have "unat ?r = unat (1024::uint)" by simp
    then show ?thesis by (simp only: word_unat_eq_iff)
  qed
  from k10 k p2 limit greatest top show ?thesis
    by (intro exI [of _ k]) simp
qed

theorem kernel_workgroup_size_greatest_halving_witness:
  "0 < (256::uint) \<and> 0 < (300::uint)
   \<and> kernel_workgroup_size (\<lambda>k d. d) () [256, 300::uint] = 256
   \<and> (\<exists>k\<le>10. unat (kernel_workgroup_size (\<lambda>k d. d) () [256, 300::uint]) = 1024 div 2 ^ k
        \<and> kernel_workgroup_size (\<lambda>k d. d) () [256, 300::uint] \<le> 256
        \<and> kernel_workgroup_size (\<lambda>k d. d) () [256, 300::uint] \<le> 300)"
proof -
  have h: "\<forall>d\<in>set [256, 300::uint]. 0 < (\<lambda>k d. d) () d" by simp
  have e: "kernel_workgroup_size (\<lambda>k d. d) () [256, 300::uint] = 256" by code_simp
  from kernel_workgroup_size_greatest_halving [of "[256, 300::uint]" "\<lambda>k d. d" "()", OF h]
  obtain k where "k \<le> 10"
    and "unat (kernel_workgroup_size (\<lambda>k d. d) () [256, 300::uint]) = 1024 div 2 ^ k"
    and "\<forall>d\<in>set [256, 300::uint]. kernel_workgroup_size (\<lambda>k d. d) () [256, 300::uint] \<le> d"
    by blast
  then have "\<exists>k\<le>10. unat (kernel_workgroup_size (\<lambda>k d. d) () [256, 300::uint]) = 1024 div 2 ^ k
        \<and> kernel_workgroup_size (\<lambda>k d. d) () [256, 300::uint] \<le> 256
        \<and> kernel_workgroup_size (\<lambda>k d. d) () [256, 300::uint] \<le> 300"
    by auto
  with e show ?thesis by simp
qed

subsection \<open>partitioning_scheme\<close>

lemma set_scheme_first: "\<not> is_set s \<Longrightarrow> set_scheme f s = s\<lparr>pfun := f, is_set := True\<rparr>"
  by (simp add: set_scheme_def)

lemma set_scheme_again:
  "is_set s \<Longrightarrow> set_scheme f s = s\<lparr>cerr := cerr s @
     [''Warning: partitioning function is already set and will be left as is.'']\<rparr>"
  by (simp add: set_scheme_def)

lemma partition_call_active:
  "is_set s \<Longrightarrow> partition_call dflt n qs s =
     (case pfun s of None \<Rightarrow> Inl Bad_function_call | Some f \<Rightarrow> Inr (f n qs), s)"
  by (simp add: partition_call_def)

lemma partition_call_first:
  "\<not> is_set s \<Longrightarrow> partition_call dflt n qs s =
     (Inr (dflt n qs), s\<lparr>pfun := Some dflt, is_set := True\<rparr>)"
  by (simp add: partition_call_def)

lemma scheme_run_active:
  "is_set s \<Longrightarrow>
   fst (scheme_run dflt ops s) = calls_with (pfun s) ops
   \<and> pfun (snd (scheme_run dflt ops s)) = pfun s
   \<and> is_set (snd (scheme_run dflt ops s))"
proof (induction ops arbitrary: s)
  case Nil
  then show ?case by simp
next
  case (Cons x ops)
  show ?case
  proof (cases x)
    case (Set_op f)
    from Cons.prems have "is_set (set_scheme f s)" "pfun (set_scheme f s) = pfun s"
      by (simp_all add: set_scheme_again)
    with Cons.IH [of "set_scheme f s"] Set_op show ?thesis by simp
  next
    case (Call_op n qs)
    with Cons.prems Cons.IH [of s] show ?thesis
      by (auto simp: partition_call_active split: prod.splits)
  qed
qed

text \<open>
  C7. The first \<^verbatim>\<open>set\<close> on the initial state installs the given function without a warning,
  and the first partition call on the initial state installs \<^verbatim>\<open>partition_by_vector_perf\<close>.
  Once a policy is active, \<^verbatim>\<open>set\<close> returns normally, only appends the warning to
  \<^verbatim>\<open>std::cerr\<close>, and leaves \<open>pfun\<close> and \<open>is_set\<close> as they are; and after any sequence of
  further \<^verbatim>\<open>set\<close> and partition calls the policy is still the original function, which every
  partition call of the sequence has used.
\<close>

theorem partitioning_scheme_set_once:
  "set_scheme f partitioning_scheme_init = \<lparr>is_set = True, pfun = f, cerr = []\<rparr>
   \<and> partition_call dflt n qs partitioning_scheme_init =
         (Inr (dflt n qs), \<lparr>is_set = True, pfun = Some dflt, cerr = []\<rparr>)
   \<and> (is_set s \<longrightarrow>
         set_scheme g s = s\<lparr>cerr := cerr s @
           [''Warning: partitioning function is already set and will be left as is.'']\<rparr>
         \<and> fst (scheme_run dflt ops s) = calls_with (pfun s) ops
         \<and> pfun (snd (scheme_run dflt ops s)) = pfun s
         \<and> is_set (snd (scheme_run dflt ops s)))"
proof -
  have "set_scheme f partitioning_scheme_init = \<lparr>is_set = True, pfun = f, cerr = []\<rparr>"
    by (simp add: set_scheme_def partitioning_scheme_init_def)
  moreover have "partition_call dflt n qs partitioning_scheme_init =
         (Inr (dflt n qs), \<lparr>is_set = True, pfun = Some dflt, cerr = []\<rparr>)"
    by (simp add: partition_call_def partitioning_scheme_init_def)
  ultimately show ?thesis
    using set_scheme_again [of s g] scheme_run_active [of s dflt ops]
    by blast
qed

theorem partitioning_scheme_set_once_witness:
  "is_set (set_scheme (Some (\<lambda>n q. [0, n])) (partitioning_scheme_init :: unit partitioning_scheme))
   \<and> fst (scheme_run (\<lambda>n q. [0, 0, n])
           [Set_op (Some (\<lambda>n q. [0, 1, n])), Call_op 7 [(), ()], Set_op None, Call_op 9 [()]]
           (set_scheme (Some (\<lambda>n q. [0, n])) partitioning_scheme_init))
       = [Inr [0, 7], Inr [0, 9]]"
proof -
  let ?s = "set_scheme (Some (\<lambda>n q. [0, n])) (partitioning_scheme_init :: unit partitioning_scheme)"
  have h: "is_set ?s"
    by (simp add: set_scheme_def partitioning_scheme_init_def)
  have p: "pfun ?s = Some (\<lambda>n q. [0, n])"
    by (simp add: set_scheme_def partitioning_scheme_init_def)
  from partitioning_scheme_set_once [of _ _ _ _ ?s] h
  have "fst (scheme_run (\<lambda>n q. [0, 0, n])
           [Set_op (Some (\<lambda>n q. [0, 1, n])), Call_op 7 [(), ()], Set_op None, Call_op 9 [()]] ?s)
       = calls_with (pfun ?s)
           [Set_op (Some (\<lambda>n q. [0, 1, n])), Call_op 7 [(), ()], Set_op None, Call_op 9 [()]]"
    by blast
  with h p show ?thesis by simp
qed

section \<open>Properties of vector.hpp\<close>

subsection \<open>write_data and read_data\<close>

lemma foldM_snoc:
  "foldM f s (xs @ [x]) = (case foldM f s xs of Inl e \<Rightarrow> Inl e | Inr s' \<Rightarrow> f s' x)"
  by (induction xs arbitrary: s) (auto split: sum.splits)

text \<open>The intersection of the two ranges is the range between the two bounds.\<close>

lemma ranges_meet:
  "device_range v d \<inter> global_range offset sz
     = {i. range_start v offset d \<le> i \<and> i < range_stop v offset sz d}"
  by (auto simp: device_range_def global_range_def range_start_def range_stop_def)

lemma ranges_meet_nonempty:
  "device_range v d \<inter> global_range offset sz \<noteq> {}
     \<longleftrightarrow> range_start v offset d < range_stop v offset sz d"
proof -
  have "{i. a \<le> i \<and> i < b} \<noteq> {} \<longleftrightarrow> a < b" for a b :: nat
    by auto
  then show ?thesis by (simp only: ranges_meet)
qed

lemma unat_max: "unat (max a b) = max (unat a) (unat (b :: 'a::len word))"
  by (simp add: max_def word_le_nat_alt)

text \<open>
  Where \<open>offset + size\<close> does not wrap around, the bounds the loops compute are the bounds of
  the intersection, and the loops skip a device exactly when the two ranges do not meet.
\<close>

lemma range_bounds:
  assumes "unat offset + unat sz < 2 ^ 64"
  shows "unat (start_of v offset d) = range_start v offset d"
    and "unat (stop_of v offset sz d) = range_stop v offset sz d"
proof -
  show "unat (start_of v offset d) = range_start v offset d"
    by (simp add: start_of_def range_start_def unat_max)
  have "unat offset + unat sz < 2 ^ LENGTH(64)"
    using assms by simp
  then have "unat (offset + sz) = unat offset + unat sz"
    by (rule unat_add_lem [THEN iffD1])
  then show "unat (stop_of v offset sz d) = range_stop v offset sz d"
    by (simp add: stop_of_def range_stop_def unat_min)
qed

lemma loop_condition:
  assumes "unat offset + unat sz < 2 ^ 64"
  shows "device_range v d \<inter> global_range offset sz \<noteq> {}
     \<longleftrightarrow> start_of v offset d < stop_of v offset sz d"
  by (simp add: ranges_meet_nonempty word_less_nat_alt range_bounds [OF assms])

text \<open>The arithmetic of a transfer, in natural numbers.\<close>

lemma transfer_bounds:
  assumes "start_of v offset d < stop_of v offset sz d"
  shows "part v ! d \<le> start_of v offset d"
    and "offset \<le> start_of v offset d"
    and "stop_of v offset sz d \<le> part v ! (d + 1)"
    and "stop_of v offset sz d \<le> offset + sz"
  by (simp_all add: start_of_def stop_of_def)

lemma transfer_in_buffer:
  assumes "start_of v offset d < stop_of v offset sz d"
  shows "unat (start_of v offset d - part v ! d) + unat (stop_of v offset sz d - start_of v offset d)
         \<le> unat (part_size v d)"
    and "part_size v d \<noteq> 0"
proof -
  let ?a = "start_of v offset d" and ?b = "stop_of v offset sz d"
  have 1: "part v ! d \<le> ?a" and 2: "?b \<le> part v ! (d + 1)"
    using transfer_bounds [OF assms] by simp_all
  have 3: "?a \<le> ?b" using assms by simp
  have 4: "part v ! d \<le> part v ! (d + 1)" using 1 2 3 by simp
  have "unat (?a - part v ! d) = unat ?a - unat (part v ! d)"
    using 1 by (rule unat_sub)
  moreover have "unat (?b - ?a) = unat ?b - unat ?a"
    using 3 by (rule unat_sub)
  moreover have "unat (part_size v d) = unat (part v ! (d + 1)) - unat (part v ! d)"
    unfolding part_size_def using 4 by (rule unat_sub)
  moreover have "unat (part v ! d) \<le> unat ?a" "unat ?a \<le> unat ?b" "unat ?b \<le> unat (part v ! (d + 1))"
    using 1 2 3 by (simp_all add: word_le_nat_alt)
  ultimately show "unat (?a - part v ! d) + unat (?b - ?a) \<le> unat (part_size v d)"
    by simp
  have "part v ! d < part v ! (d + 1)" using 1 2 assms by simp
  then show "part_size v d \<noteq> 0" by (simp add: part_size_def)
qed

lemma transfer_in_host:
  assumes "start_of v offset d < stop_of v offset sz d"
  shows "unat (start_of v offset d - offset) + unat (stop_of v offset sz d - start_of v offset d)
         \<le> unat sz"
proof -
  let ?a = "start_of v offset d" and ?b = "stop_of v offset sz d"
  have 1: "offset \<le> ?a" and 2: "?b \<le> offset + sz"
    using transfer_bounds [OF assms] by simp_all
  have 3: "?a \<le> ?b" using assms by simp
  have "unat (?a - offset) = unat ?a - unat offset"
    using 1 by (rule unat_sub)
  moreover have "unat (?b - ?a) = unat ?b - unat ?a"
    using 3 by (rule unat_sub)
  moreover have "unat (offset + sz) \<le> unat offset + unat sz"
    by (simp add: unat_word_ariths)
  moreover have "unat offset \<le> unat ?a" "unat ?a \<le> unat ?b" "unat ?b \<le> unat (offset + sz)"
    using 1 2 3 by (simp_all add: word_le_nat_alt)
  ultimately show ?thesis by simp
qed

text \<open>Writing into a buffer keeps the size of every buffer.\<close>

lemma part_allocated_sizes:
  assumes "\<forall>h. map_option length (mem w' h) = map_option length (mem w h)"
  shows "part_allocated v w' d = part_allocated v w d"
proof (cases "buf v ! d")
  case None
  then show ?thesis by (simp add: part_allocated_def)
next
  case (Some h)
  from assms have "map_option length (mem w' h) = map_option length (mem w h)" ..
  with Some show ?thesis
    by (cases "mem w h"; cases "mem w' h") (auto simp: part_allocated_def)
qed

lemma write_step_skip:
  assumes "d + 1 < length (part v)"
    and "\<not> start_of v offset d < stop_of v offset sz d"
  shows "write_step v offset sz host (ev, w) d = Inr (ev, w)"
  using assms by (simp add: write_step_def Let_def not_less)

lemma write_step_transfer:
  assumes part: "d + 1 < length (part v)" and buf: "d < length (buf v)" and ev: "d < length ev"
    and meet: "start_of v offset d < stop_of v offset sz d"
    and alloc: "part_allocated v w d"
    and host: "unat sz \<le> length host"
  shows "\<exists>h xs ys. buf v ! d = Some h \<and> mem w h = Some xs \<and> length ys = length xs
           \<and> ys = take (unat (start_of v offset d - part v ! d)) xs
                @ take (unat (stop_of v offset sz d - start_of v offset d))
                    (drop (unat (start_of v offset d - offset)) host)
                @ drop (unat (start_of v offset d - part v ! d)
                        + unat (stop_of v offset sz d - start_of v offset d)) xs
           \<and> write_step v offset sz host (ev, w) d
             = Inr (ev[d := Some (length (commands w))],
                 w\<lparr>mem := (mem w)(h \<mapsto> ys),
                   commands := commands w @ [write_transfer v offset sz d]\<rparr>)"
proof -
  let ?doff = "unat (start_of v offset d - part v ! d)"
  let ?len = "unat (stop_of v offset sz d - start_of v offset d)"
  let ?hoff = "unat (start_of v offset d - offset)"
  from alloc obtain h xs where h: "buf v ! d = Some h" and xs: "mem w h = Some xs"
    and size: "length xs = unat (part_size v d)"
    by (auto simp: part_allocated_def split: option.splits)
  have inbuf: "?doff + ?len \<le> length xs"
    using transfer_in_buffer(1) [OF meet] size by simp
  have inhost: "?hoff + ?len \<le> length host"
    using transfer_in_host [OF meet] host by simp
  let ?ys = "take ?doff xs @ take ?len (drop ?hoff host) @ drop (?doff + ?len) xs"
  have len: "length ?ys = length xs"
    using inbuf inhost by simp
  have "enqueueWriteBuffer d (buf v ! d) False ?doff ?len host ?hoff w
      = Inr (Some (length (commands w)),
          w\<lparr>mem := (mem w)(h \<mapsto> ?ys), commands := commands w @ [Write_buffer d h False ?doff ?len ?hoff]\<rparr>)"
    using h xs inbuf inhost by (simp add: enqueueWriteBuffer_def)
  moreover have "write_transfer v offset sz d = Write_buffer d h False ?doff ?len ?hoff"
    using h by (simp add: write_transfer_def)
  moreover have "\<not> stop_of v offset sz d \<le> start_of v offset d"
    using meet by (simp add: not_le)
  ultimately have "write_step v offset sz host (ev, w) d
      = Inr (ev[d := Some (length (commands w))],
          w\<lparr>mem := (mem w)(h \<mapsto> ?ys), commands := commands w @ [write_transfer v offset sz d]\<rparr>)"
    using part buf ev by (simp add: write_step_def Let_def)
  with h xs len show ?thesis by blast
qed

lemma write_loop:
  assumes part: "length (part v) = length (queue v) + 1"
    and buf: "length (buf v) = length (queue v)"
    and ev0: "length ev0 = length (queue v)"
    and alloc: "\<forall>d<length (queue v). part_size v d \<noteq> 0 \<longrightarrow> part_allocated v w d"
    and host: "unat sz \<le> length host"
    and n: "n \<le> length (queue v)"
  shows "\<exists>ev w'. foldM (write_step v offset sz host) (ev0, w) [0..<n] = Inr (ev, w')
      \<and> length ev = length ev0
      \<and> commands w' = commands w @ map (write_transfer v offset sz)
            (filter (\<lambda>d. start_of v offset d < stop_of v offset sz d) [0..<n])
      \<and> (\<forall>d<n. start_of v offset d < stop_of v offset sz d \<longrightarrow>
            (\<exists>k<length (commands w'). ev ! d = Some k \<and> commands w' ! k = write_transfer v offset sz d))
      \<and> (\<forall>h. map_option length (mem w' h) = map_option length (mem w h))
      \<and> objects w' = objects w"
  using n
proof (induction n)
  case 0
  show ?case by simp
next
  case (Suc n)
  then have n: "n < length (queue v)" by simp
  with Suc.IH obtain ev w' where
    run: "foldM (write_step v offset sz host) (ev0, w) [0..<n] = Inr (ev, w')"
    and len: "length ev = length ev0"
    and cmds: "commands w' = commands w @ map (write_transfer v offset sz)
            (filter (\<lambda>d. start_of v offset d < stop_of v offset sz d) [0..<n])"
    and evs: "\<forall>d<n. start_of v offset d < stop_of v offset sz d \<longrightarrow>
            (\<exists>k<length (commands w'). ev ! d = Some k \<and> commands w' ! k = write_transfer v offset sz d)"
    and sizes: "\<forall>h. map_option length (mem w' h) = map_option length (mem w h)"
    and objs: "objects w' = objects w"
    by auto
  have step: "foldM (write_step v offset sz host) (ev0, w) [0..<Suc n]
      = write_step v offset sz host (ev, w') n"
    by (simp add: foldM_snoc run)
  show ?case
  proof (cases "start_of v offset n < stop_of v offset sz n")
    case False
    then have "write_step v offset sz host (ev, w') n = Inr (ev, w')"
      using n part by (simp add: write_step_skip)
    with step False len cmds evs sizes objs show ?thesis
      by (auto simp: less_Suc_eq)
  next
    case True
    then have "part_size v n \<noteq> 0" by (rule transfer_in_buffer(2))
    with alloc n have "part_allocated v w n" by simp
    then have "part_allocated v w' n"
      using part_allocated_sizes [OF sizes, of v n] by simp
    moreover have "n + 1 < length (part v)" "n < length (buf v)" "n < length ev"
      using n part buf ev0 len by simp_all
    ultimately have "\<exists>h xs ys. buf v ! n = Some h \<and> mem w' h = Some xs \<and> length ys = length xs
           \<and> ys = take (unat (start_of v offset n - part v ! n)) xs
                @ take (unat (stop_of v offset sz n - start_of v offset n))
                    (drop (unat (start_of v offset n - offset)) host)
                @ drop (unat (start_of v offset n - part v ! n)
                        + unat (stop_of v offset sz n - start_of v offset n)) xs
           \<and> write_step v offset sz host (ev, w') n
             = Inr (ev[n := Some (length (commands w'))],
                 w'\<lparr>mem := (mem w')(h \<mapsto> ys),
                   commands := commands w' @ [write_transfer v offset sz n]\<rparr>)"
      using True host by (intro write_step_transfer)
    then obtain h xs ys where h: "buf v ! n = Some h" and xs: "mem w' h = Some xs"
      and ys: "length ys = length xs"
      and res: "write_step v offset sz host (ev, w') n
             = Inr (ev[n := Some (length (commands w'))],
                 w'\<lparr>mem := (mem w')(h \<mapsto> ys),
                   commands := commands w' @ [write_transfer v offset sz n]\<rparr>)"
      by blast
    let ?ev = "ev[n := Some (length (commands w'))]"
    let ?w = "w'\<lparr>mem := (mem w')(h \<mapsto> ys), commands := commands w' @ [write_transfer v offset sz n]\<rparr>"
    have 1: "length ?ev = length ev0" using len by simp
    have 2: "commands ?w = commands w @ map (write_transfer v offset sz)
            (filter (\<lambda>d. start_of v offset d < stop_of v offset sz d) [0..<Suc n])"
      using cmds True by simp
    have 3: "\<exists>k<length (commands ?w). ?ev ! d = Some k \<and> commands ?w ! k = write_transfer v offset sz d"
      if "d < Suc n" and "start_of v offset d < stop_of v offset sz d" for d
    proof (cases "d = n")
      case True
      have "n < length ev" using n len ev0 by simp
      then have "?ev ! n = Some (length (commands w'))" by simp
      moreover have "commands ?w ! length (commands w') = write_transfer v offset sz n" by simp
      moreover have "length (commands w') < length (commands ?w)" by simp
      ultimately show ?thesis using True by blast
    next
      case False
      with that have "d < n" by simp
      with evs that obtain k where k: "k < length (commands w')" "ev ! d = Some k"
        "commands w' ! k = write_transfer v offset sz d"
        by blast
      from False have "?ev ! d = ev ! d" by simp
      moreover from k have "commands ?w ! k = write_transfer v offset sz d"
        by (simp add: nth_append)
      moreover from k have "k < length (commands ?w)" by simp
      ultimately show ?thesis using k by auto
    qed
    have 4: "\<forall>h'. map_option length (mem ?w h') = map_option length (mem w h')"
      using sizes xs ys by (auto simp: dest: spec [of _ h])
    have 5: "objects ?w = objects w" using objs by simp
    from 3 have 6: "\<forall>d<Suc n. start_of v offset d < stop_of v offset sz d \<longrightarrow>
        (\<exists>k<length (commands ?w). ?ev ! d = Some k \<and> commands ?w ! k = write_transfer v offset sz d)"
      by blast
    from step res have 0: "foldM (write_step v offset sz host) (ev0, w) [0..<Suc n] = Inr (?ev, ?w)"
      by simp
    show ?thesis
      by (intro exI [of _ ?ev] exI [of _ ?w] conjI) (fact 0 1 2 4 5 6)+
  qed
qed

lemma read_step_skip:
  assumes "d + 1 < length (part v)"
    and "\<not> start_of v offset d < stop_of v offset sz d"
  shows "read_step v offset sz (ev, host, w) d = Inr (ev, host, w)"
  using assms by (simp add: read_step_def Let_def not_less)

lemma read_step_transfer:
  assumes part: "d + 1 < length (part v)" and buf: "d < length (buf v)" and ev: "d < length ev"
    and meet: "start_of v offset d < stop_of v offset sz d"
    and alloc: "part_allocated v w d"
    and host: "unat sz \<le> length host"
  shows "\<exists>h xs host'. buf v ! d = Some h \<and> mem w h = Some xs \<and> length xs = unat (part_size v d)
           \<and> length host' = length host
           \<and> host' = take (unat (start_of v offset d - offset)) host
                @ take (unat (stop_of v offset sz d - start_of v offset d))
                    (drop (unat (start_of v offset d - part v ! d)) xs)
                @ drop (unat (start_of v offset d - offset)
                        + unat (stop_of v offset sz d - start_of v offset d)) host
           \<and> read_step v offset sz (ev, host, w) d
             = Inr (ev[d := Some (length (commands w))], host',
                 w\<lparr>commands := commands w @ [read_transfer v offset sz d]\<rparr>)"
proof -
  let ?doff = "unat (start_of v offset d - part v ! d)"
  let ?len = "unat (stop_of v offset sz d - start_of v offset d)"
  let ?hoff = "unat (start_of v offset d - offset)"
  from alloc obtain h xs where h: "buf v ! d = Some h" and xs: "mem w h = Some xs"
    and size: "length xs = unat (part_size v d)"
    by (auto simp: part_allocated_def split: option.splits)
  have inbuf: "?doff + ?len \<le> length xs"
    using transfer_in_buffer(1) [OF meet] size by simp
  have inhost: "?hoff + ?len \<le> length host"
    using transfer_in_host [OF meet] host by simp
  let ?host = "take ?hoff host @ take ?len (drop ?doff xs) @ drop (?hoff + ?len) host"
  have len: "length ?host = length host"
    using inbuf inhost by simp
  have "enqueueReadBuffer d (buf v ! d) False ?doff ?len host ?hoff w
      = Inr (Some (length (commands w)), ?host,
          w\<lparr>commands := commands w @ [Read_buffer d h False ?doff ?len ?hoff]\<rparr>)"
    using h xs inbuf inhost by (simp add: enqueueReadBuffer_def)
  moreover have "read_transfer v offset sz d = Read_buffer d h False ?doff ?len ?hoff"
    using h by (simp add: read_transfer_def)
  moreover have "\<not> stop_of v offset sz d \<le> start_of v offset d"
    using meet by (simp add: not_le)
  ultimately have "read_step v offset sz (ev, host, w) d
      = Inr (ev[d := Some (length (commands w))], ?host,
          w\<lparr>commands := commands w @ [read_transfer v offset sz d]\<rparr>)"
    using part buf ev by (simp add: read_step_def Let_def)
  with h xs size len show ?thesis by blast
qed

lemma read_loop:
  assumes part: "length (part v) = length (queue v) + 1"
    and buf: "length (buf v) = length (queue v)"
    and ev0: "length ev0 = length (queue v)"
    and alloc: "\<forall>d<length (queue v). part_size v d \<noteq> 0 \<longrightarrow> part_allocated v w d"
    and host: "unat sz \<le> length host"
    and n: "n \<le> length (queue v)"
  shows "\<exists>ev host' w'. foldM (read_step v offset sz) (ev0, host, w) [0..<n] = Inr (ev, host', w')
      \<and> length ev = length ev0
      \<and> length host' = length host
      \<and> commands w' = commands w @ map (read_transfer v offset sz)
            (filter (\<lambda>d. start_of v offset d < stop_of v offset sz d) [0..<n])
      \<and> (\<forall>d<n. start_of v offset d < stop_of v offset sz d \<longrightarrow>
            (\<exists>k<length (commands w'). ev ! d = Some k \<and> commands w' ! k = read_transfer v offset sz d))
      \<and> mem w' = mem w
      \<and> objects w' = objects w"
  using n
proof (induction n)
  case 0
  show ?case by simp
next
  case (Suc n)
  then have n: "n < length (queue v)" by simp
  with Suc.IH obtain ev host' w' where
    run: "foldM (read_step v offset sz) (ev0, host, w) [0..<n] = Inr (ev, host', w')"
    and len: "length ev = length ev0"
    and hlen: "length host' = length host"
    and cmds: "commands w' = commands w @ map (read_transfer v offset sz)
            (filter (\<lambda>d. start_of v offset d < stop_of v offset sz d) [0..<n])"
    and evs: "\<forall>d<n. start_of v offset d < stop_of v offset sz d \<longrightarrow>
            (\<exists>k<length (commands w'). ev ! d = Some k \<and> commands w' ! k = read_transfer v offset sz d)"
    and mems: "mem w' = mem w"
    and objs: "objects w' = objects w"
    by auto
  have step: "foldM (read_step v offset sz) (ev0, host, w) [0..<Suc n]
      = read_step v offset sz (ev, host', w') n"
    by (simp add: foldM_snoc run)
  show ?case
  proof (cases "start_of v offset n < stop_of v offset sz n")
    case False
    then have "read_step v offset sz (ev, host', w') n = Inr (ev, host', w')"
      using n part by (simp add: read_step_skip)
    with step False len hlen cmds evs mems objs show ?thesis
      by (auto simp: less_Suc_eq)
  next
    case True
    then have "part_size v n \<noteq> 0" by (rule transfer_in_buffer(2))
    with alloc n have "part_allocated v w n" by simp
    then have "part_allocated v w' n"
      using part_allocated_sizes [of w' w v n] mems by simp
    moreover have "n + 1 < length (part v)" "n < length (buf v)" "n < length ev"
      using n part buf ev0 len by simp_all
    moreover have "unat sz \<le> length host'"
      using host hlen by simp
    ultimately have "\<exists>h xs host''. buf v ! n = Some h \<and> mem w' h = Some xs
           \<and> length xs = unat (part_size v n)
           \<and> length host'' = length host'
           \<and> host'' = take (unat (start_of v offset n - offset)) host'
                @ take (unat (stop_of v offset sz n - start_of v offset n))
                    (drop (unat (start_of v offset n - part v ! n)) xs)
                @ drop (unat (start_of v offset n - offset)
                        + unat (stop_of v offset sz n - start_of v offset n)) host'
           \<and> read_step v offset sz (ev, host', w') n
             = Inr (ev[n := Some (length (commands w'))], host'',
                 w'\<lparr>commands := commands w' @ [read_transfer v offset sz n]\<rparr>)"
      using True by (intro read_step_transfer)
    then obtain host'' where hlen': "length host'' = length host'"
      and res: "read_step v offset sz (ev, host', w') n
             = Inr (ev[n := Some (length (commands w'))], host'',
                 w'\<lparr>commands := commands w' @ [read_transfer v offset sz n]\<rparr>)"
      by blast
    let ?ev = "ev[n := Some (length (commands w'))]"
    let ?w = "w'\<lparr>commands := commands w' @ [read_transfer v offset sz n]\<rparr>"
    have 1: "length ?ev = length ev0" using len by simp
    have 2: "commands ?w = commands w @ map (read_transfer v offset sz)
            (filter (\<lambda>d. start_of v offset d < stop_of v offset sz d) [0..<Suc n])"
      using cmds True by simp
    have 3: "\<exists>k<length (commands ?w). ?ev ! d = Some k \<and> commands ?w ! k = read_transfer v offset sz d"
      if "d < Suc n" and "start_of v offset d < stop_of v offset sz d" for d
    proof (cases "d = n")
      case True
      have "n < length ev" using n len ev0 by simp
      then have "?ev ! n = Some (length (commands w'))" by simp
      moreover have "commands ?w ! length (commands w') = read_transfer v offset sz n" by simp
      moreover have "length (commands w') < length (commands ?w)" by simp
      ultimately show ?thesis using True by blast
    next
      case False
      with that have "d < n" by simp
      with evs that obtain k where k: "k < length (commands w')" "ev ! d = Some k"
        "commands w' ! k = read_transfer v offset sz d"
        by blast
      from False have "?ev ! d = ev ! d" by simp
      moreover from k have "commands ?w ! k = read_transfer v offset sz d"
        by (simp add: nth_append)
      moreover from k have "k < length (commands ?w)" by simp
      ultimately show ?thesis using k by auto
    qed
    have 4: "mem ?w = mem w" using mems by simp
    have 5: "objects ?w = objects w" using objs by simp
    from 3 have 6: "\<forall>d<Suc n. start_of v offset d < stop_of v offset sz d \<longrightarrow>
        (\<exists>k<length (commands ?w). ?ev ! d = Some k \<and> commands ?w ! k = read_transfer v offset sz d)"
      by blast
    have 7: "length host'' = length host" using hlen hlen' by simp
    from step res have 0: "foldM (read_step v offset sz) (ev0, host, w) [0..<Suc n] = Inr (?ev, host'', ?w)"
      by simp
    show ?thesis
      by (intro exI [of _ ?ev] exI [of _ host''] exI [of _ ?w] conjI) (fact 0 1 2 4 5 6 7)+
  qed
qed

lemma wait_loop:
  assumes part: "length (part v) = length (queue v) + 1"
    and len: "length ev = length (queue v)"
    and evs: "\<forall>d<length (queue v). start_of v offset d < stop_of v offset sz d \<longrightarrow> (\<exists>k. ev ! d = Some k)"
    and n: "n \<le> length (queue v)"
  shows "foldM (wait_step v offset sz ev) w [0..<n]
       = Inr (w\<lparr>commands := commands w @ map (\<lambda>d. Wait_event (the (ev ! d)))
            (filter (\<lambda>d. start_of v offset d < stop_of v offset sz d) [0..<n])\<rparr>)"
  using n
proof (induction n)
  case 0
  show ?case by simp
next
  case (Suc n)
  then have n: "n < length (queue v)" by simp
  let ?w = "w\<lparr>commands := commands w @ map (\<lambda>d. Wait_event (the (ev ! d)))
            (filter (\<lambda>d. start_of v offset d < stop_of v offset sz d) [0..<n])\<rparr>"
  from Suc n have run: "foldM (wait_step v offset sz ev) w [0..<n] = Inr ?w"
    by simp
  have step: "foldM (wait_step v offset sz ev) w [0..<Suc n] = wait_step v offset sz ev ?w n"
    by (simp add: foldM_snoc run)
  show ?case
  proof (cases "start_of v offset n < stop_of v offset sz n")
    case False
    with n part have "wait_step v offset sz ev ?w n = Inr ?w"
      by (simp add: wait_step_def)
    with step False show ?thesis by simp
  next
    case True
    with evs n obtain k where k: "ev ! n = Some k" by blast
    with True n part len have "wait_step v offset sz ev ?w n
        = Inr (?w\<lparr>commands := commands ?w @ [Wait_event k]\<rparr>)"
      by (simp add: wait_step_def wait_event_def)
    with step True k show ?thesis by simp
  qed
qed

lemma intersecting_filter:
  assumes "unat offset + unat sz < 2 ^ 64"
  shows "intersecting v offset sz
     = filter (\<lambda>d. start_of v offset d < stop_of v offset sz d) [0..<length (queue v)]"
  by (simp add: intersecting_def loop_condition [OF assms])

lemma intersecting_empty_size: "intersecting v offset 0 = []"
  by (simp add: intersecting_def ranges_meet_nonempty range_start_def range_stop_def)

text \<open>The command of a device whose range meets the global range, by the bounds of the intersection.\<close>

lemma transfer_of_range:
  assumes nowrap: "unat offset + unat sz < 2 ^ 64" and d: "d \<in> set (intersecting v offset sz)"
  shows "write_transfer v offset sz d
      = Write_buffer d (the (buf v ! d)) False
          (range_start v offset d - unat (part v ! d))
          (range_stop v offset sz d - range_start v offset d)
          (range_start v offset d - unat offset)"
    and "read_transfer v offset sz d
      = Read_buffer d (the (buf v ! d)) False
          (range_start v offset d - unat (part v ! d))
          (range_stop v offset sz d - range_start v offset d)
          (range_start v offset d - unat offset)"
proof -
  let ?a = "start_of v offset d" and ?b = "stop_of v offset sz d"
  from d have meet: "?a < ?b"
    by (simp add: intersecting_filter [OF nowrap])
  then have "?a \<le> ?b" by simp
  then have 1: "unat (?b - ?a) = range_stop v offset sz d - range_start v offset d"
    using unat_sub [of ?a ?b] by (simp add: range_bounds [OF nowrap])
  have "part v ! d \<le> ?a" using transfer_bounds(1) [OF meet] .
  then have 2: "unat (?a - part v ! d) = range_start v offset d - unat (part v ! d)"
    using unat_sub [of "part v ! d" ?a] by (simp add: range_bounds [OF nowrap])
  have "offset \<le> ?a" using transfer_bounds(2) [OF meet] .
  then have 3: "unat (?a - offset) = range_start v offset d - unat offset"
    using unat_sub [of offset ?a] by (simp add: range_bounds [OF nowrap])
  show "write_transfer v offset sz d
      = Write_buffer d (the (buf v ! d)) False
          (range_start v offset d - unat (part v ! d))
          (range_stop v offset sz d - range_start v offset d)
          (range_start v offset d - unat offset)"
    by (simp only: write_transfer_def 1 2 3)
  show "read_transfer v offset sz d
      = Read_buffer d (the (buf v ! d)) False
          (range_start v offset d - unat (part v ! d))
          (range_stop v offset sz d - range_start v offset d)
          (range_start v offset d - unat offset)"
    by (simp only: read_transfer_def 1 2 3)
qed

lemma allocatedD:
  assumes "allocated v w"
  shows "length (part v) = length (queue v) + 1" "length (buf v) = length (queue v)"
    "length (event v) = length (queue v)"
    "\<forall>d<length (queue v). part_size v d \<noteq> 0 \<longrightarrow> part_allocated v w d"
  using assms by (simp_all add: allocated_def list_all_iff)

lemma write_data_transfers:
  assumes obj: "objects w this = Some v" and alloc: "allocated v w \<or> queue v = []" and host: "unat sz \<le> length host"
    and nowrap: "unat offset + unat sz < 2 ^ 64"
  shows "\<exists>w'. write_data this offset sz host blocking None w = Inr (None, w')
      \<and> commands w' = commands w @ map (write_transfer v offset sz) (intersecting v offset sz)
          @ (if blocking
             then map (\<lambda>d. Wait_event (the (event (the (objects w' this)) ! d))) (intersecting v offset sz)
             else [])
      \<and> (\<forall>d\<in>set (intersecting v offset sz). \<exists>k<length (commands w').
            event (the (objects w' this)) ! d = Some k \<and> commands w' ! k = write_transfer v offset sz d)"
proof (cases "sz = 0")
  case True
  then show ?thesis
    by (simp add: write_data_def intersecting_empty_size)
next
  case nz: False
  show ?thesis
  proof (cases "queue v = []")
    case True
    with nz obj show ?thesis
      by (simp add: write_data_def intersecting_def)
  next
    case False
    with alloc have alloc': "allocated v w" by simp
    let ?D = "length (queue v)"
    let ?P = "\<lambda>d. start_of v offset d < stop_of v offset sz d"
    note a = allocatedD [OF alloc']
    from write_loop [OF a(1) a(2) a(3) a(4) host le_refl, of offset]
    obtain ev w1 where run: "foldM (write_step v offset sz host) (event v, w) [0..<?D] = Inr (ev, w1)"
      and len: "length ev = length (event v)"
      and cmds: "commands w1 = commands w @ map (write_transfer v offset sz) (filter ?P [0..<?D])"
      and evs: "\<forall>d<?D. ?P d \<longrightarrow>
          (\<exists>k<length (commands w1). ev ! d = Some k \<and> commands w1 ! k = write_transfer v offset sz d)"
      by blast
    define ws where "ws = (if blocking then map (\<lambda>d. Wait_event (the (ev ! d))) (filter ?P [0..<?D]) else [])"
    define w2 where "w2 = w1\<lparr>commands := commands w1 @ ws\<rparr>"
    have "\<forall>d<?D. ?P d \<longrightarrow> (\<exists>k. ev ! d = Some k)"
      using evs by blast
    then have "foldM (wait_step v offset sz ev) w1 [0..<?D]
        = Inr (w1\<lparr>commands := commands w1 @ map (\<lambda>d. Wait_event (the (ev ! d))) (filter ?P [0..<?D])\<rparr>)"
      using a(1) len a(3) by (intro wait_loop) simp_all
    then have wait: "(if blocking then foldM (wait_step v offset sz ev) w1 [0..<?D] else Inr w1) = Inr w2"
      by (simp add: w2_def ws_def)
    let ?w = "w2\<lparr>objects := (objects w2)(this \<mapsto> v\<lparr>event := ev\<rparr>)\<rparr>"
    have res: "write_data this offset sz host blocking None w = Inr (None, ?w)"
      using nz obj run wait by (simp add: write_data_def)
    have ev': "event (the (objects ?w this)) = ev" by simp
    have c: "commands ?w = commands w @ map (write_transfer v offset sz) (intersecting v offset sz)
            @ (if blocking
               then map (\<lambda>d. Wait_event (the (ev ! d))) (intersecting v offset sz)
               else [])"
      by (simp add: w2_def ws_def cmds intersecting_filter [OF nowrap])
    have e: "\<exists>k<length (commands ?w). ev ! d = Some k \<and> commands ?w ! k = write_transfer v offset sz d"
      if "d \<in> set (intersecting v offset sz)" for d
    proof -
      from that have "d < ?D" "?P d" by (simp_all add: intersecting_filter [OF nowrap])
      with evs obtain k where "k < length (commands w1)" "ev ! d = Some k"
        "commands w1 ! k = write_transfer v offset sz d"
        by blast
      then show ?thesis by (auto simp: w2_def nth_append)
    qed
    show ?thesis
      using res c e unfolding ev'
      by (intro exI [of _ ?w]) (simp only: ev', blast)
  qed
qed

lemma read_data_transfers:
  assumes obj: "objects w this = Some v" and alloc: "allocated v w \<or> queue v = []" and host: "unat sz \<le> length host"
    and nowrap: "unat offset + unat sz < 2 ^ 64"
  shows "\<exists>host' w'. read_data this offset sz host blocking None w = Inr (host', None, w')
      \<and> commands w' = commands w @ map (read_transfer v offset sz) (intersecting v offset sz)
          @ (if blocking
             then map (\<lambda>d. Wait_event (the (event (the (objects w' this)) ! d))) (intersecting v offset sz)
             else [])
      \<and> (\<forall>d\<in>set (intersecting v offset sz). \<exists>k<length (commands w').
            event (the (objects w' this)) ! d = Some k \<and> commands w' ! k = read_transfer v offset sz d)"
proof (cases "sz = 0")
  case True
  then show ?thesis
    by (simp add: read_data_def intersecting_empty_size)
next
  case nz: False
  show ?thesis
  proof (cases "queue v = []")
    case True
    with nz obj show ?thesis
      by (simp add: read_data_def intersecting_def)
  next
    case False
    with alloc have alloc': "allocated v w" by simp
    let ?D = "length (queue v)"
    let ?P = "\<lambda>d. start_of v offset d < stop_of v offset sz d"
    note a = allocatedD [OF alloc']
    from read_loop [OF a(1) a(2) a(3) a(4) host le_refl, of offset]
    obtain ev host' w1 where run: "foldM (read_step v offset sz) (event v, host, w) [0..<?D] = Inr (ev, host', w1)"
      and len: "length ev = length (event v)"
      and cmds: "commands w1 = commands w @ map (read_transfer v offset sz) (filter ?P [0..<?D])"
      and evs: "\<forall>d<?D. ?P d \<longrightarrow>
          (\<exists>k<length (commands w1). ev ! d = Some k \<and> commands w1 ! k = read_transfer v offset sz d)"
      by blast
    define ws where "ws = (if blocking then map (\<lambda>d. Wait_event (the (ev ! d))) (filter ?P [0..<?D]) else [])"
    define w2 where "w2 = w1\<lparr>commands := commands w1 @ ws\<rparr>"
    have "\<forall>d<?D. ?P d \<longrightarrow> (\<exists>k. ev ! d = Some k)"
      using evs by blast
    then have "foldM (wait_step v offset sz ev) w1 [0..<?D]
        = Inr (w1\<lparr>commands := commands w1 @ map (\<lambda>d. Wait_event (the (ev ! d))) (filter ?P [0..<?D])\<rparr>)"
      using a(1) len a(3) by (intro wait_loop) simp_all
    then have wait: "(if blocking then foldM (wait_step v offset sz ev) w1 [0..<?D] else Inr w1) = Inr w2"
      by (simp add: w2_def ws_def)
    let ?w = "w2\<lparr>objects := (objects w2)(this \<mapsto> v\<lparr>event := ev\<rparr>)\<rparr>"
    have res: "read_data this offset sz host blocking None w = Inr (host', None, ?w)"
      using nz obj run wait by (simp add: read_data_def)
    have ev': "event (the (objects ?w this)) = ev" by simp
    have c: "commands ?w = commands w @ map (read_transfer v offset sz) (intersecting v offset sz)
            @ (if blocking
               then map (\<lambda>d. Wait_event (the (ev ! d))) (intersecting v offset sz)
               else [])"
      by (simp add: w2_def ws_def cmds intersecting_filter [OF nowrap])
    have e: "\<exists>k<length (commands ?w). ev ! d = Some k \<and> commands ?w ! k = read_transfer v offset sz d"
      if "d \<in> set (intersecting v offset sz)" for d
    proof -
      from that have "d < ?D" "?P d" by (simp_all add: intersecting_filter [OF nowrap])
      with evs obtain k where "k < length (commands w1)" "ev ! d = Some k"
        "commands w1 ! k = read_transfer v offset sz d"
        by blast
      then show ?thesis by (auto simp: w2_def nth_append)
    qed
    show ?thesis
      using res c e
      by (intro exI [of _ host'] exI [of _ ?w]) (simp only: ev', blast)
  qed
qed

text \<open>
  C6. The claim asks, for every call, for one transfer to each device whose range meets
  \<open>[offset, offset + size)\<close>. For the vector of six elements on two devices, the range of
  \<^verbatim>\<open>write_data(5, 18446744073709551615, hostptr, blocking)\<close> holds index 5, which is in the
  range \<open>[4, 6)\<close> of the second device. The \<^verbatim>\<open>size_t\<close> sum \<^verbatim>\<open>offset + size\<close> wraps around to 4,
  so \<open>stop\<close> is 4 on both devices, below \<open>start = 5\<close>, and both loops skip both devices:
  the call returns without a transfer, and so does the same call of \<^verbatim>\<open>read_data\<close>.
\<close>

theorem transfer_range_wraps_around:
  "(\<exists>w'. write_data 0 5 18446744073709551615 host blocking None example_world = Inr (None, w')
      \<and> commands w' = [])
   \<and> (\<exists>w'. read_data 0 5 18446744073709551615 host blocking None example_world
        = Inr (host, None, w')
      \<and> commands w' = [])
   \<and> intersecting example_vector 5 18446744073709551615 = [1]
   \<and> 5 \<in> device_range example_vector 1 \<inter> global_range 5 18446744073709551615"
proof (intro conjI)
  show "\<exists>w'. write_data 0 5 18446744073709551615 host blocking None example_world = Inr (None, w')
      \<and> commands w' = []"
    by (simp add: write_data_def write_step_def wait_step_def start_of_def stop_of_def
        example_vector_def example_world_def example_queue_def upt_rec Let_def)
  show "\<exists>w'. read_data 0 5 18446744073709551615 host blocking None example_world
        = Inr (host, None, w')
      \<and> commands w' = []"
    by (simp add: read_data_def read_step_def wait_step_def start_of_def stop_of_def
        example_vector_def example_world_def example_queue_def upt_rec Let_def)
  show "intersecting example_vector 5 18446744073709551615 = [1]"
    by (simp add: intersecting_def ranges_meet_nonempty range_start_def range_stop_def
        example_vector_def example_queue_def upt_rec)
  show "5 \<in> device_range example_vector 1 \<inter> global_range 5 18446744073709551615"
    by (simp add: device_range_def global_range_def example_vector_def)
qed

text \<open>
  So it is on every vector: where \<open>offset + size\<close> wraps around, the \<^verbatim>\<open>size_t\<close> sum is below
  \<open>offset\<close>, every device is skipped by every loop, and the call returns without a command.
\<close>

lemma foldM_unchanged:
  assumes "\<forall>d<n. f s d = Inr s"
  shows "foldM f s [0..<n] = Inr s"
  using assms by (induction n) (simp_all add: foldM_snoc)

lemma wrapped_sum_skips:
  fixes offset sz :: size_t
  assumes wrap: "2 ^ 64 \<le> unat offset + unat sz"
  shows "\<not> start_of v offset d < stop_of v offset sz d"
proof -
  have a: "unat offset < 2 ^ LENGTH(64)" and b: "unat sz < 2 ^ LENGTH(64)"
    by (rule unsigned_less)+
  have "unat (offset + sz) = (unat offset + unat sz) mod 2 ^ 64"
    by (simp add: unat_word_ariths)
  moreover have "unat offset + unat sz < 2 * 2 ^ 64"
    using a b by simp
  then have "(unat offset + unat sz) mod 2 ^ 64 = unat offset + unat sz - 2 ^ 64"
    using wrap by (simp add: mod_if)
  ultimately have "unat (offset + sz) < unat offset"
    using wrap b by simp
  then have "offset + sz < offset" by (simp add: word_less_nat_alt)
  moreover have "stop_of v offset sz d \<le> offset + sz" by (simp add: stop_of_def)
  moreover have "offset \<le> start_of v offset d" by (simp add: start_of_def)
  ultimately show ?thesis by simp
qed

lemma wrapped_call_transfers_nothing:
  assumes obj: "objects w this = Some v"
    and part: "length (part v) = length (queue v) + 1"
    and wrap: "2 ^ 64 \<le> unat offset + unat sz"
  shows "\<exists>w'. write_data this offset sz host blocking None w = Inr (None, w')
           \<and> commands w' = commands w \<and> mem w' = mem w"
    and "\<exists>w'. read_data this offset sz host blocking None w = Inr (host, None, w')
           \<and> commands w' = commands w \<and> mem w' = mem w"
proof -
  let ?D = "length (queue v)"
  have "unat offset < 2 ^ LENGTH(64)" by (rule unsigned_less)
  with wrap have nz: "sz \<noteq> 0"
    by (auto simp: unat_eq_0)
  note skip = wrapped_sum_skips [OF wrap]
  have "\<forall>d<?D. write_step v offset sz host (event v, w) d = Inr (event v, w)"
    using part skip by (simp add: write_step_skip)
  then have wr: "foldM (write_step v offset sz host) (event v, w) [0..<?D] = Inr (event v, w)"
    by (rule foldM_unchanged)
  have "\<forall>d<?D. read_step v offset sz (event v, host, w) d = Inr (event v, host, w)"
    using part skip by (simp add: read_step_skip)
  then have rd: "foldM (read_step v offset sz) (event v, host, w) [0..<?D] = Inr (event v, host, w)"
    by (rule foldM_unchanged)
  have "\<forall>d<?D. wait_step v offset sz (event v) w d = Inr w"
    using part skip by (simp add: wait_step_def)
  then have wt: "foldM (wait_step v offset sz (event v)) w [0..<?D] = Inr w"
    by (rule foldM_unchanged)
  show "\<exists>w'. write_data this offset sz host blocking None w = Inr (None, w')
           \<and> commands w' = commands w \<and> mem w' = mem w"
    using nz obj wr wt by (simp add: write_data_def)
  show "\<exists>w'. read_data this offset sz host blocking None w = Inr (host, None, w')
           \<and> commands w' = commands w \<and> mem w' = mem w"
    using nz obj rd wt by (simp add: read_data_def)
qed

text \<open>
  Where \<open>offset + size\<close> does not wrap around, for a vector that owns its buffers, or one
  without queues as an empty or moved-from vector is, and a host array of at least \<open>size\<close>
  elements: \<^verbatim>\<open>write_data(offset, size, hostptr, blocking)\<close> and
  \<^verbatim>\<open>read_data(offset, size, hostptr, blocking)\<close> return normally and issue exactly one transfer
  to every device whose range \<open>[part[d], part[d + 1])\<close> meets \<open>[offset, offset + size)\<close>, in the
  order of the devices, and none to the others. The transfer of device \<open>d\<close> is not blocking,
  starts at \<open>start - part[d]\<close> in the buffer and at \<open>start - offset\<close> in the host array and has
  \<open>stop - start\<close> elements, where \<open>[start, stop)\<close> is the intersection of the two ranges.
  After the transfers come the waits, only when \<open>blocking\<close> is set, one for each of these
  devices, each on the event of that device's transfer.
\<close>

lemma transfers_cover_intersections:
  assumes obj: "objects w this = Some v" and alloc: "allocated v w \<or> queue v = []"
    and host: "unat sz \<le> length host"
    and nowrap: "unat offset + unat sz < 2 ^ 64"
  shows "(\<exists>w'. write_data this offset sz host blocking None w = Inr (None, w')
      \<and> commands w' = commands w @ map (write_transfer v offset sz) (intersecting v offset sz)
          @ (if blocking
             then map (\<lambda>d. Wait_event (the (event (the (objects w' this)) ! d))) (intersecting v offset sz)
             else [])
      \<and> (\<forall>d\<in>set (intersecting v offset sz). \<exists>k<length (commands w').
            event (the (objects w' this)) ! d = Some k \<and> commands w' ! k = write_transfer v offset sz d))
    \<and> (\<exists>host' w'. read_data this offset sz host blocking None w = Inr (host', None, w')
      \<and> commands w' = commands w @ map (read_transfer v offset sz) (intersecting v offset sz)
          @ (if blocking
             then map (\<lambda>d. Wait_event (the (event (the (objects w' this)) ! d))) (intersecting v offset sz)
             else [])
      \<and> (\<forall>d\<in>set (intersecting v offset sz). \<exists>k<length (commands w').
            event (the (objects w' this)) ! d = Some k \<and> commands w' ! k = read_transfer v offset sz d))
    \<and> (\<forall>d. device_range v d \<inter> global_range offset sz
            = {i. range_start v offset d \<le> i \<and> i < range_stop v offset sz d})
    \<and> (\<forall>d\<in>set (intersecting v offset sz).
          write_transfer v offset sz d
            = Write_buffer d (the (buf v ! d)) False
                (range_start v offset d - unat (part v ! d))
                (range_stop v offset sz d - range_start v offset d)
                (range_start v offset d - unat offset)
          \<and> read_transfer v offset sz d
            = Read_buffer d (the (buf v ! d)) False
                (range_start v offset d - unat (part v ! d))
                (range_stop v offset sz d - range_start v offset d)
                (range_start v offset d - unat offset))"
proof (intro conjI allI ballI)
  show "\<exists>w'. write_data this offset sz host blocking None w = Inr (None, w')
      \<and> commands w' = commands w @ map (write_transfer v offset sz) (intersecting v offset sz)
          @ (if blocking
             then map (\<lambda>d. Wait_event (the (event (the (objects w' this)) ! d))) (intersecting v offset sz)
             else [])
      \<and> (\<forall>d\<in>set (intersecting v offset sz). \<exists>k<length (commands w').
            event (the (objects w' this)) ! d = Some k \<and> commands w' ! k = write_transfer v offset sz d)"
    using obj alloc host nowrap by (rule write_data_transfers)
  show "\<exists>host' w'. read_data this offset sz host blocking None w = Inr (host', None, w')
      \<and> commands w' = commands w @ map (read_transfer v offset sz) (intersecting v offset sz)
          @ (if blocking
             then map (\<lambda>d. Wait_event (the (event (the (objects w' this)) ! d))) (intersecting v offset sz)
             else [])
      \<and> (\<forall>d\<in>set (intersecting v offset sz). \<exists>k<length (commands w').
            event (the (objects w' this)) ! d = Some k \<and> commands w' ! k = read_transfer v offset sz d)"
    using obj alloc host nowrap by (rule read_data_transfers)
  show "device_range v d \<inter> global_range offset sz
      = {i. range_start v offset d \<le> i \<and> i < range_stop v offset sz d}" for d
    by (rule ranges_meet)
  show "write_transfer v offset sz d
      = Write_buffer d (the (buf v ! d)) False
          (range_start v offset d - unat (part v ! d))
          (range_stop v offset sz d - range_start v offset d)
          (range_start v offset d - unat offset)"
    if "d \<in> set (intersecting v offset sz)" for d
    using nowrap that by (rule transfer_of_range(1))
  show "read_transfer v offset sz d
      = Read_buffer d (the (buf v ! d)) False
          (range_start v offset d - unat (part v ! d))
          (range_stop v offset sz d - range_start v offset d)
          (range_start v offset d - unat offset)"
    if "d \<in> set (intersecting v offset sz)" for d
    using nowrap that by (rule transfer_of_range(2))
qed

text \<open>
  On the vector of six elements on two devices, a blocking write of two elements at offset 3
  sends one element to each device and waits for both.
\<close>

lemma transfers_cover_intersections_example:
  "objects example_world 0 = Some example_vector
   \<and> allocated example_vector example_world
   \<and> unat (2 :: size_t) \<le> length [7, 8 :: nat]
   \<and> unat (3 :: size_t) + unat (2 :: size_t) < 2 ^ 64
   \<and> intersecting example_vector 3 2 = [0, 1]
   \<and> (\<exists>w'. write_data 0 3 2 [7, 8] True None example_world = Inr (None, w')
        \<and> commands w' = [Write_buffer 0 10 False 3 1 0, Write_buffer 1 11 False 0 1 1,
                          Wait_event 0, Wait_event 1]
        \<and> commands w' = commands example_world
              @ map (write_transfer example_vector 3 2) (intersecting example_vector 3 2)
              @ map (\<lambda>d. Wait_event (the (event (the (objects w' 0)) ! d)))
                  (intersecting example_vector 3 2))"
proof -
  have obj: "objects example_world 0 = Some example_vector"
    by (simp add: example_world_def)
  have alloc: "allocated example_vector example_world"
    by (simp add: allocated_def part_allocated_def part_size_def example_vector_def
        example_world_def example_queue_def upt_rec)
  have host: "unat (2 :: size_t) \<le> length [7, 8 :: nat]"
    by simp
  have nowrap: "unat (3 :: size_t) + unat (2 :: size_t) < 2 ^ 64"
    by simp
  have meet: "intersecting example_vector 3 2 = [0, 1]"
    by (simp add: intersecting_def ranges_meet_nonempty range_start_def range_stop_def
        example_vector_def example_queue_def upt_rec)
  from alloc have alloc': "allocated example_vector example_world \<or> queue example_vector = []"
    by simp
  from transfers_cover_intersections [OF obj alloc' host nowrap, of True]
  obtain w' where run: "write_data 0 3 2 [7, 8] True None example_world = Inr (None, w')"
    and cmds: "commands w' = commands example_world
              @ map (write_transfer example_vector 3 2) (intersecting example_vector 3 2)
              @ map (\<lambda>d. Wait_event (the (event (the (objects w' 0)) ! d)))
                  (intersecting example_vector 3 2)"
    by auto
  have "\<exists>w. write_data 0 3 2 [7, 8 :: nat] True None example_world = Inr (None, w)
      \<and> commands w = [Write_buffer 0 10 False 3 1 0, Write_buffer 1 11 False 0 1 1,
                      Wait_event 0, Wait_event 1]"
    by (simp add: write_data_def write_step_def wait_step_def wait_event_def
        enqueueWriteBuffer_def start_of_def stop_of_def example_vector_def example_world_def
        example_queue_def upt_rec Let_def)
  with run have "commands w' = [Write_buffer 0 10 False 3 1 0, Write_buffer 1 11 False 0 1 1,
                      Wait_event 0, Wait_event 1]"
    by auto
  with obj alloc host nowrap meet run cmds show ?thesis by blast
qed

subsection \<open>copy to the devices and back\<close>

text \<open>The whole range of a vector built over a partition table.\<close>

lemma wf_vectorD:
  assumes "wf_vector v w"
  shows "allocated v w" "part v ! 0 = 0" "sorted (part v)"
    "distinct (map (\<lambda>d. buf v ! d) (filter (\<lambda>d. part_size v d \<noteq> 0) [0..<length (queue v)]))"
  using assms by (simp_all add: wf_vector_def)

lemma whole_range:
  assumes part: "length (part v) = length (queue v) + 1" and sorted: "sorted (part v)"
    and d: "d < length (queue v)"
  shows "start_of v 0 d = part v ! d"
    and "stop_of v 0 (vector_size v) d = part v ! (d + 1)"
    and "part v ! d \<le> part v ! (d + 1)"
    and "part v ! (d + 1) \<le> vector_size v"
    and "unat (part_size v d) = unat (part v ! (d + 1)) - unat (part v ! d)"
    and "start_of v 0 d < stop_of v 0 (vector_size v) d \<longleftrightarrow> part_size v d \<noteq> 0"
proof -
  from part have ne: "part v \<noteq> []" by auto
  then have size: "vector_size v = part v ! length (queue v)"
    using part by (simp add: vector_size_def last_conv_nth)
  show 1: "start_of v 0 d = part v ! d"
    by (simp add: start_of_def)
  show 3: "part v ! d \<le> part v ! (d + 1)"
    using sorted d part by (simp add: sorted_iff_nth_mono)
  show 4: "part v ! (d + 1) \<le> vector_size v"
    unfolding size using sorted d part by (simp add: sorted_iff_nth_mono)
  then show 2: "stop_of v 0 (vector_size v) d = part v ! (d + 1)"
    by (simp add: stop_of_def min_def)
  show "unat (part_size v d) = unat (part v ! (d + 1)) - unat (part v ! d)"
    unfolding part_size_def using 3 by (rule unat_sub)
  have "part v ! d < part v ! (d + 1) \<longleftrightarrow> part v ! (d + 1) - part v ! d \<noteq> 0"
    using 3 by auto
  then show "start_of v 0 d < stop_of v 0 (vector_size v) d \<longleftrightarrow> part_size v d \<noteq> 0"
    by (simp add: 1 2 part_size_def)
qed

lemma distinct_buffers:
  assumes dist: "distinct (map (\<lambda>d. buf v ! d) (filter (\<lambda>d. part_size v d \<noteq> 0) [0..<length (queue v)]))"
    and "d < length (queue v)" "d' < length (queue v)"
    and "part_size v d \<noteq> 0" "part_size v d' \<noteq> 0" "d \<noteq> d'"
  shows "buf v ! d \<noteq> buf v ! d'"
proof -
  let ?ds = "filter (\<lambda>d. part_size v d \<noteq> 0) [0..<length (queue v)]"
  from dist have "inj_on (\<lambda>d. buf v ! d) (set ?ds)"
    by (simp add: distinct_map)
  moreover from assms have "d \<in> set ?ds" "d' \<in> set ?ds" by simp_all
  ultimately show ?thesis
    using \<open>d \<noteq> d'\<close> by (auto dest: inj_onD)
qed

lemma write_loop_whole:
  assumes wf: "wf_vector v w"
    and ev0: "length ev0 = length (queue v)"
    and host: "length hv = unat (vector_size v)"
    and n: "n \<le> length (queue v)"
  shows "\<exists>ev w'. foldM (write_step v 0 (vector_size v) hv) (ev0, w) [0..<n] = Inr (ev, w')
      \<and> (\<forall>d<n. part_size v d \<noteq> 0 \<longrightarrow>
            mem w' (the (buf v ! d)) = Some (take (unat (part_size v d)) (drop (unat (part v ! d)) hv)))
      \<and> (\<forall>h. map_option length (mem w' h) = map_option length (mem w h))"
  using n
proof (induction n)
  case 0
  show ?case by simp
next
  case (Suc n)
  note a = allocatedD [OF wf_vectorD(1) [OF wf]]
  note r = whole_range [OF a(1) wf_vectorD(3) [OF wf]]
  from Suc have n: "n < length (queue v)" by simp
  with Suc.IH obtain ev w' where
    run: "foldM (write_step v 0 (vector_size v) hv) (ev0, w) [0..<n] = Inr (ev, w')"
    and data: "\<forall>d<n. part_size v d \<noteq> 0 \<longrightarrow>
            mem w' (the (buf v ! d)) = Some (take (unat (part_size v d)) (drop (unat (part v ! d)) hv))"
    and sizes: "\<forall>h. map_option length (mem w' h) = map_option length (mem w h)"
    by auto
  have "\<exists>ev1 w1. foldM (write_step v 0 (vector_size v) hv) (ev0, w) [0..<n] = Inr (ev1, w1)
      \<and> length ev1 = length ev0"
    using write_loop [OF a(1) a(2) ev0 a(4), of "vector_size v" hv n 0] host n by auto
  with run have len: "length ev = length ev0" by simp
  have step: "foldM (write_step v 0 (vector_size v) hv) (ev0, w) [0..<Suc n]
      = write_step v 0 (vector_size v) hv (ev, w') n"
    by (simp add: foldM_snoc run)
  show ?case
  proof (cases "part_size v n = 0")
    case True
    then have "\<not> start_of v 0 n < stop_of v 0 (vector_size v) n"
      using r(6) [OF n] by simp
    then have "write_step v 0 (vector_size v) hv (ev, w') n = Inr (ev, w')"
      using n a(1) by (simp add: write_step_skip)
    with step True data sizes show ?thesis
      by (auto simp: less_Suc_eq)
  next
    case False
    then have meet: "start_of v 0 n < stop_of v 0 (vector_size v) n"
      using r(6) [OF n] by simp
    from False a(4) n have "part_allocated v w n" by simp
    then have alloc: "part_allocated v w' n"
      using part_allocated_sizes [OF sizes, of v n] by simp
    have "\<exists>h xs ys. buf v ! n = Some h \<and> mem w' h = Some xs \<and> length ys = length xs
           \<and> ys = take (unat (start_of v 0 n - part v ! n)) xs
                @ take (unat (stop_of v 0 (vector_size v) n - start_of v 0 n))
                    (drop (unat (start_of v 0 n - 0)) hv)
                @ drop (unat (start_of v 0 n - part v ! n)
                        + unat (stop_of v 0 (vector_size v) n - start_of v 0 n)) xs
           \<and> write_step v 0 (vector_size v) hv (ev, w') n
             = Inr (ev[n := Some (length (commands w'))],
                 w'\<lparr>mem := (mem w')(h \<mapsto> ys),
                   commands := commands w' @ [write_transfer v 0 (vector_size v) n]\<rparr>)"
      using n a(1) a(2) ev0 len meet alloc host by (intro write_step_transfer) simp_all
    then obtain h xs ys where h: "buf v ! n = Some h" and xs: "mem w' h = Some xs"
      and ylen: "length ys = length xs"
      and ys: "ys = take (unat (start_of v 0 n - part v ! n)) xs
                @ take (unat (stop_of v 0 (vector_size v) n - start_of v 0 n))
                    (drop (unat (start_of v 0 n - 0)) hv)
                @ drop (unat (start_of v 0 n - part v ! n)
                        + unat (stop_of v 0 (vector_size v) n - start_of v 0 n)) xs"
      and res: "write_step v 0 (vector_size v) hv (ev, w') n
             = Inr (ev[n := Some (length (commands w'))],
                 w'\<lparr>mem := (mem w')(h \<mapsto> ys),
                   commands := commands w' @ [write_transfer v 0 (vector_size v) n]\<rparr>)"
      by blast
    from alloc h xs have xlen: "length xs = unat (part_size v n)"
      by (simp add: part_allocated_def)
    have ys': "ys = take (unat (part_size v n)) (drop (unat (part v ! n)) hv)"
      using ys xlen by (simp add: r(1) [OF n] r(2) [OF n] part_size_def)
    let ?ev = "ev[n := Some (length (commands w'))]"
    let ?w = "w'\<lparr>mem := (mem w')(h \<mapsto> ys), commands := commands w' @ [write_transfer v 0 (vector_size v) n]\<rparr>"
    have 1: "mem ?w (the (buf v ! d)) = Some (take (unat (part_size v d)) (drop (unat (part v ! d)) hv))"
      if "d < Suc n" and "part_size v d \<noteq> 0" for d
    proof (cases "d = n")
      case True
      with h ys' show ?thesis by simp
    next
      case neq: False
      with that have dn: "d < n" by simp
      have "buf v ! d \<noteq> buf v ! n"
        using wf_vectorD(4) [OF wf] dn n that(2) False neq by (intro distinct_buffers) simp_all
      moreover from that(2) a(4) dn n have "part_allocated v w d" by simp
      then obtain h' where "buf v ! d = Some h'"
        by (auto simp: part_allocated_def split: option.splits)
      ultimately have "mem ?w (the (buf v ! d)) = mem w' (the (buf v ! d))"
        using h by simp
      with data dn that(2) show ?thesis by simp
    qed
    have 2: "\<forall>h'. map_option length (mem ?w h') = map_option length (mem w h')"
      using sizes xs ylen by (auto simp: dest: spec [of _ h])
    from 1 have 3: "\<forall>d<Suc n. part_size v d \<noteq> 0 \<longrightarrow>
        mem ?w (the (buf v ! d)) = Some (take (unat (part_size v d)) (drop (unat (part v ! d)) hv))"
      by blast
    from step res have 0: "foldM (write_step v 0 (vector_size v) hv) (ev0, w) [0..<Suc n] = Inr (?ev, ?w)"
      by simp
    show ?thesis
      by (intro exI [of _ ?ev] exI [of _ ?w] conjI) (fact 0 2 3)+
  qed
qed

lemma held_allocated:
  assumes part: "length (part v) = length (queue v) + 1" and sorted: "sorted (part v)"
    and host: "length hv = unat (vector_size v)"
    and d: "d < length (queue v)"
    and held: "buf v ! d = Some h" "mem w h = Some (take (unat (part_size v d)) (drop (unat (part v ! d)) hv))"
  shows "part_allocated v w d"
proof -
  note r = whole_range [OF part sorted d]
  have "unat (part v ! (d + 1)) \<le> unat (vector_size v)"
    using r(4) by (simp add: word_le_nat_alt)
  moreover have "unat (part v ! d) \<le> unat (part v ! (d + 1))"
    using r(3) by (simp add: word_le_nat_alt)
  ultimately have "unat (part v ! d) + unat (part_size v d) \<le> length hv"
    using r(5) host by simp
  then have "length (take (unat (part_size v d)) (drop (unat (part v ! d)) hv)) = unat (part_size v d)"
    by simp
  with held show ?thesis by (simp add: part_allocated_def)
qed

lemma read_loop_whole:
  assumes part: "length (part v) = length (queue v) + 1"
    and buf: "length (buf v) = length (queue v)"
    and zero: "part v ! 0 = 0"
    and sorted: "sorted (part v)"
    and held: "\<forall>d<length (queue v). part_size v d \<noteq> 0 \<longrightarrow>
        (\<exists>h. buf v ! d = Some h
           \<and> mem w h = Some (take (unat (part_size v d)) (drop (unat (part v ! d)) hv)))"
    and ev0: "length ev0 = length (queue v)"
    and host: "length hv = unat (vector_size v)"
    and hout: "length hout = length hv"
    and n: "n \<le> length (queue v)"
  shows "\<exists>ev host' w'. foldM (read_step v 0 (vector_size v)) (ev0, hout, w) [0..<n] = Inr (ev, host', w')
      \<and> length ev = length ev0
      \<and> length host' = length hv
      \<and> take (unat (part v ! n)) host' = take (unat (part v ! n)) hv
      \<and> mem w' = mem w"
  using n
proof (induction n)
  case 0
  show ?case by (simp add: zero hout)
next
  case (Suc n)
  then have n: "n < length (queue v)" by simp
  note r = whole_range [OF part sorted n]
  from Suc.IH n obtain ev host' w' where
    run: "foldM (read_step v 0 (vector_size v)) (ev0, hout, w) [0..<n] = Inr (ev, host', w')"
    and len: "length ev = length ev0"
    and hlen: "length host' = length hv"
    and pre: "take (unat (part v ! n)) host' = take (unat (part v ! n)) hv"
    and mems: "mem w' = mem w"
    by auto
  have step: "foldM (read_step v 0 (vector_size v)) (ev0, hout, w) [0..<Suc n]
      = read_step v 0 (vector_size v) (ev, host', w') n"
    by (simp add: foldM_snoc run)
  show ?case
  proof (cases "part_size v n = 0")
    case True
    then have "\<not> start_of v 0 n < stop_of v 0 (vector_size v) n"
      using r(6) by simp
    then have "read_step v 0 (vector_size v) (ev, host', w') n = Inr (ev, host', w')"
      using n part by (simp add: read_step_skip)
    moreover have "part v ! (n + 1) = part v ! n"
      using True by (simp add: part_size_def)
    ultimately show ?thesis
      using step len hlen pre mems by simp
  next
    case False
    then have meet: "start_of v 0 n < stop_of v 0 (vector_size v) n"
      using r(6) by simp
    from held n False obtain h where h: "buf v ! n = Some h"
      and xs: "mem w h = Some (take (unat (part_size v n)) (drop (unat (part v ! n)) hv))"
      by blast
    let ?xs = "take (unat (part_size v n)) (drop (unat (part v ! n)) hv)"
    have "part_allocated v w n"
      using part sorted host n h xs by (rule held_allocated)
    then have alloc: "part_allocated v w' n"
      using part_allocated_sizes [of w' w v n] mems by simp
    have "\<exists>h xs host''. buf v ! n = Some h \<and> mem w' h = Some xs
           \<and> length xs = unat (part_size v n)
           \<and> length host'' = length host'
           \<and> host'' = take (unat (start_of v 0 n - 0)) host'
                @ take (unat (stop_of v 0 (vector_size v) n - start_of v 0 n))
                    (drop (unat (start_of v 0 n - part v ! n)) xs)
                @ drop (unat (start_of v 0 n - 0)
                        + unat (stop_of v 0 (vector_size v) n - start_of v 0 n)) host'
           \<and> read_step v 0 (vector_size v) (ev, host', w') n
             = Inr (ev[n := Some (length (commands w'))], host'',
                 w'\<lparr>commands := commands w' @ [read_transfer v 0 (vector_size v) n]\<rparr>)"
      using n part buf ev0 len meet alloc host hlen by (intro read_step_transfer) simp_all
    then obtain h' xs' host'' where "buf v ! n = Some h'" and "mem w' h' = Some xs'"
      and xlen: "length xs' = unat (part_size v n)"
      and hlen': "length host'' = length host'"
      and host'': "host'' = take (unat (start_of v 0 n - 0)) host'
                @ take (unat (stop_of v 0 (vector_size v) n - start_of v 0 n))
                    (drop (unat (start_of v 0 n - part v ! n)) xs')
                @ drop (unat (start_of v 0 n - 0)
                        + unat (stop_of v 0 (vector_size v) n - start_of v 0 n)) host'"
      and res: "read_step v 0 (vector_size v) (ev, host', w') n
             = Inr (ev[n := Some (length (commands w'))], host'',
                 w'\<lparr>commands := commands w' @ [read_transfer v 0 (vector_size v) n]\<rparr>)"
      by blast
    with h xs mems have xs': "xs' = ?xs" by simp
    have le1: "unat (part v ! n) \<le> unat (part v ! (n + 1))"
      using r(3) by (simp add: word_le_nat_alt)
    have le2: "unat (part v ! (n + 1)) \<le> length hv"
      using r(4) host by (simp add: word_le_nat_alt)
    have sum: "unat (part v ! (n + 1)) = unat (part v ! n) + unat (part_size v n)"
      using r(5) le1 by simp
    have form: "host'' = take (unat (part v ! n)) host' @ ?xs
        @ drop (unat (part v ! n) + unat (part_size v n)) host'"
      using host'' xlen xs' by (simp add: r(1) r(2) part_size_def)
    have "length (take (unat (part v ! n)) host') = unat (part v ! n)"
      using le1 le2 hlen by simp
    moreover have "length ?xs = unat (part_size v n)"
      using xlen xs' by simp
    ultimately have "take (unat (part v ! (n + 1))) host'' = take (unat (part v ! n)) host' @ ?xs"
      unfolding form sum by simp
    also have "\<dots> = take (unat (part v ! n)) hv @ ?xs"
      by (simp only: pre)
    also have "\<dots> = take (unat (part v ! (n + 1))) hv"
      unfolding sum by (simp only: take_add)
    finally have 1: "take (unat (part v ! Suc n)) host'' = take (unat (part v ! Suc n)) hv"
      by simp
    let ?ev = "ev[n := Some (length (commands w'))]"
    let ?w = "w'\<lparr>commands := commands w' @ [read_transfer v 0 (vector_size v) n]\<rparr>"
    have 2: "length ?ev = length ev0" using len by simp
    have 3: "length host'' = length hv" using hlen hlen' by simp
    have 4: "mem ?w = mem w" using mems by simp
    from step res have 0: "foldM (read_step v 0 (vector_size v)) (ev0, hout, w) [0..<Suc n]
        = Inr (?ev, host'', ?w)"
      by simp
    show ?thesis
      by (intro exI [of _ ?ev] exI [of _ host''] exI [of _ ?w] conjI) (fact 0 1 2 3 4)+
  qed
qed

lemma write_data_whole:
  assumes obj: "objects w dv = Some v" and wf: "wf_vector v w"
    and host: "length hv = unat (vector_size v)" and nz: "vector_size v \<noteq> 0"
  shows "\<exists>ev w1. write_data dv 0 (vector_size v) hv True None w = Inr (None, w1)
      \<and> objects w1 dv = Some (v\<lparr>event := ev\<rparr>)
      \<and> length ev = length (queue v)
      \<and> (\<forall>d<length (queue v). part_size v d \<noteq> 0 \<longrightarrow>
            (\<exists>h. buf v ! d = Some h
               \<and> mem w1 h = Some (take (unat (part_size v d)) (drop (unat (part v ! d)) hv))))"
proof -
  let ?D = "length (queue v)" and ?N = "vector_size v"
  let ?P = "\<lambda>d. start_of v 0 d < stop_of v 0 ?N d"
  note a = allocatedD [OF wf_vectorD(1) [OF wf]]
  have hostle: "unat ?N \<le> length hv" using host by simp
  from write_loop_whole [OF wf a(3) host le_refl]
  obtain ev w' where run: "foldM (write_step v 0 ?N hv) (event v, w) [0..<?D] = Inr (ev, w')"
    and data: "\<forall>d<?D. part_size v d \<noteq> 0 \<longrightarrow>
        mem w' (the (buf v ! d)) = Some (take (unat (part_size v d)) (drop (unat (part v ! d)) hv))"
    by blast
  from write_loop [OF a(1) a(2) a(3) a(4) hostle le_refl, of 0]
  obtain ev1 w1 where "foldM (write_step v 0 ?N hv) (event v, w) [0..<?D] = Inr (ev1, w1)"
    and "length ev1 = length (event v)"
    and "\<forall>d<?D. ?P d \<longrightarrow>
        (\<exists>k<length (commands w1). ev1 ! d = Some k \<and> commands w1 ! k = write_transfer v 0 ?N d)"
    by blast
  with run have len: "length ev = ?D"
    and evs: "\<forall>d<?D. ?P d \<longrightarrow> (\<exists>k. ev ! d = Some k)"
    using a(3) by auto
  let ?w2 = "w'\<lparr>commands := commands w' @ map (\<lambda>d. Wait_event (the (ev ! d))) (filter ?P [0..<?D])\<rparr>"
  have wait: "foldM (wait_step v 0 ?N ev) w' [0..<?D] = Inr ?w2"
    using a(1) len evs by (intro wait_loop) simp_all
  let ?w = "?w2\<lparr>objects := (objects ?w2)(dv \<mapsto> v\<lparr>event := ev\<rparr>)\<rparr>"
  have res: "write_data dv 0 ?N hv True None w = Inr (None, ?w)"
    using nz obj run wait by (simp add: write_data_def)
  have held: "\<exists>h. buf v ! d = Some h
      \<and> mem ?w h = Some (take (unat (part_size v d)) (drop (unat (part v ! d)) hv))"
    if "d < ?D" and "part_size v d \<noteq> 0" for d
  proof -
    from that a(4) have "part_allocated v w d" by simp
    then obtain h where h: "buf v ! d = Some h"
      by (auto simp: part_allocated_def split: option.splits)
    with data that have "mem w' h = Some (take (unat (part_size v d)) (drop (unat (part v ! d)) hv))"
      by auto
    with h show ?thesis by simp
  qed
  have "objects ?w dv = Some (v\<lparr>event := ev\<rparr>)" by simp
  with res len held show ?thesis by blast
qed

lemma read_data_whole:
  assumes obj: "objects w dv = Some v"
    and part: "length (part v) = length (queue v) + 1"
    and buf: "length (buf v) = length (queue v)"
    and ev: "length (event v) = length (queue v)"
    and zero: "part v ! 0 = 0"
    and sorted: "sorted (part v)"
    and held: "\<forall>d<length (queue v). part_size v d \<noteq> 0 \<longrightarrow>
        (\<exists>h. buf v ! d = Some h
           \<and> mem w h = Some (take (unat (part_size v d)) (drop (unat (part v ! d)) hv)))"
    and host: "length hv = unat (vector_size v)"
    and hout: "length hout = length hv"
    and nz: "vector_size v \<noteq> 0"
  shows "\<exists>w2. read_data dv 0 (vector_size v) hout True None w = Inr (hv, None, w2)"
proof -
  let ?D = "length (queue v)" and ?N = "vector_size v"
  let ?P = "\<lambda>d. start_of v 0 d < stop_of v 0 ?N d"
  from read_loop_whole [OF part buf zero sorted held ev host hout le_refl]
  obtain e host' w' where run: "foldM (read_step v 0 ?N) (event v, hout, w) [0..<?D] = Inr (e, host', w')"
    and len: "length e = length (event v)"
    and hlen: "length host' = length hv"
    and pre: "take (unat (part v ! ?D)) host' = take (unat (part v ! ?D)) hv"
    by blast
  from part have "part v \<noteq> []" by auto
  then have "?N = part v ! ?D"
    using part by (simp add: vector_size_def last_conv_nth)
  with pre hlen host have result: "host' = hv" by simp
  have alloc: "\<forall>d<?D. part_size v d \<noteq> 0 \<longrightarrow> part_allocated v w d"
  proof (intro allI impI)
    fix d assume d: "d < ?D" and "part_size v d \<noteq> 0"
    with held obtain h where "buf v ! d = Some h"
      "mem w h = Some (take (unat (part_size v d)) (drop (unat (part v ! d)) hv))"
      by blast
    with part sorted host d show "part_allocated v w d" by (rule held_allocated)
  qed
  have hostle: "unat ?N \<le> length hout" using host hout by simp
  from read_loop [OF part buf ev alloc hostle le_refl, of 0]
  obtain e1 h1 w1 where "foldM (read_step v 0 ?N) (event v, hout, w) [0..<?D] = Inr (e1, h1, w1)"
    and "\<forall>d<?D. ?P d \<longrightarrow>
        (\<exists>k<length (commands w1). e1 ! d = Some k \<and> commands w1 ! k = read_transfer v 0 ?N d)"
    by blast
  with run have evs: "\<forall>d<?D. ?P d \<longrightarrow> (\<exists>k. e ! d = Some k)"
    by auto
  let ?w2 = "w'\<lparr>commands := commands w' @ map (\<lambda>d. Wait_event (the (e ! d))) (filter ?P [0..<?D])\<rparr>"
  have wait: "foldM (wait_step v 0 ?N e) w' [0..<?D] = Inr ?w2"
    using part len ev evs by (intro wait_loop) simp_all
  have "read_data dv 0 ?N hout True None w
      = Inr (hv, None, ?w2\<lparr>objects := (objects ?w2)(dv \<mapsto> v\<lparr>event := e\<rparr>)\<rparr>)"
    using nz obj run wait result by (simp add: read_data_def)
  then show ?thesis ..
qed

text \<open>
  C3. For a vector built over a partition table, or an empty one without a table, a host
  vector \<open>hv\<close> of the length of the vector and any host vector \<open>hostOut\<close> of that length: the
  blocking \<^verbatim>\<open>copy(hv, dv)\<close> returns normally, the blocking \<^verbatim>\<open>copy(dv, hostOut)\<close> that follows returns
  normally, and \<open>hostOut\<close> then holds \<open>hv\<close>.
\<close>

theorem copy_round_trip:
  assumes obj: "objects w dv = Some v" and wf': "wf_vector v w \<or> part v = []"
    and host: "length hv = unat (vector_size v)" and hout: "length hostOut = length hv"
  shows "\<exists>w1 w2. copy_to_device hv dv True w = Inr w1
      \<and> copy_to_host dv hostOut True w1 = Inr (hv, w2)"
proof (cases "vector_size v = 0")
  case True
  with host hout have "hv = []" "hostOut = []" by simp_all
  with True obj show ?thesis
    by (simp add: copy_to_device_def copy_to_host_def write_data_def read_data_def)
next
  case False
  then have "part v \<noteq> []" by (auto simp: vector_size_def)
  with wf' have wf: "wf_vector v w" by simp
  note a = allocatedD [OF wf_vectorD(1) [OF wf]]
  from write_data_whole [OF obj wf host False]
  obtain ev w1 where wr: "write_data dv 0 (vector_size v) hv True None w = Inr (None, w1)"
    and obj1: "objects w1 dv = Some (v\<lparr>event := ev\<rparr>)"
    and len: "length ev = length (queue v)"
    and held: "\<forall>d<length (queue v). part_size v d \<noteq> 0 \<longrightarrow>
        (\<exists>h. buf v ! d = Some h
           \<and> mem w1 h = Some (take (unat (part_size v d)) (drop (unat (part v ! d)) hv)))"
    by blast
  let ?v = "v\<lparr>event := ev\<rparr>"
  have size: "vector_size ?v = vector_size v"
    by (simp add: vector_size_def)
  have psize: "part_size ?v d = part_size v d" for d
    by (simp add: part_size_def)
  have "\<exists>w2. read_data dv 0 (vector_size ?v) hostOut True None w1 = Inr (hv, None, w2)"
  proof (rule read_data_whole [OF obj1])
    show "length (part ?v) = length (queue ?v) + 1" using a(1) by simp
    show "length (buf ?v) = length (queue ?v)" using a(2) by simp
    show "length (event ?v) = length (queue ?v)" using len by simp
    show "part ?v ! 0 = 0" using wf_vectorD(2) [OF wf] by simp
    show "sorted (part ?v)" using wf_vectorD(3) [OF wf] by simp
    show "\<forall>d<length (queue ?v). part_size ?v d \<noteq> 0 \<longrightarrow>
        (\<exists>h. buf ?v ! d = Some h
           \<and> mem w1 h = Some (take (unat (part_size ?v d)) (drop (unat (part ?v ! d)) hv)))"
      using held by (simp add: psize)
    show "length hv = unat (vector_size ?v)" using host by (simp add: size)
    show "length hostOut = length hv" by (rule hout)
    show "vector_size ?v \<noteq> 0" using False by (simp add: size)
  qed
  then obtain w2 where rd: "read_data dv 0 (vector_size ?v) hostOut True None w1 = Inr (hv, None, w2)" ..
  have "copy_to_device hv dv True w = Inr w1"
    using obj wr by (simp add: copy_to_device_def)
  moreover have "copy_to_host dv hostOut True w1 = Inr (hv, w2)"
    using obj1 rd by (simp add: copy_to_host_def)
  ultimately show ?thesis by blast
qed

theorem copy_round_trip_witness:
  "objects example_world 0 = Some example_vector
   \<and> wf_vector example_vector example_world
   \<and> length [1, 2, 3, 4, 5, 6 :: nat] = unat (vector_size example_vector)
   \<and> length [9, 9, 9, 9, 9, 9 :: nat] = length [1, 2, 3, 4, 5, 6 :: nat]
   \<and> (\<exists>w1 w2. copy_to_device [1, 2, 3, 4, 5, 6] 0 True example_world = Inr w1
        \<and> copy_to_host 0 [9, 9, 9, 9, 9, 9] True w1 = Inr ([1, 2, 3, 4, 5, 6], w2))"
proof -
  have obj: "objects example_world 0 = Some example_vector"
    by (simp add: example_world_def)
  have wf: "wf_vector example_vector example_world"
    by (simp add: wf_vector_def allocated_def part_allocated_def part_size_def example_vector_def
        example_world_def example_queue_def upt_rec)
  have host: "length [1, 2, 3, 4, 5, 6 :: nat] = unat (vector_size example_vector)"
    by (simp add: vector_size_def example_vector_def)
  have hout: "length [9, 9, 9, 9, 9, 9 :: nat] = length [1, 2, 3, 4, 5, 6 :: nat]"
    by simp
  from wf have wf': "wf_vector example_vector example_world \<or> part example_vector = []"
    by simp
  from copy_round_trip [OF obj wf' host hout] obj wf host hout show ?thesis
    by blast
qed

subsection \<open>Copy assignment to itself\<close>

text \<open>
  C10. Copy-assigning a vector to itself returns normally and leaves the whole state as it
  is: no command is issued, and the vector, the buffers and the events are unchanged.
\<close>

theorem self_assignment_is_no_op: "assign_vector x x w = Inr w"
  by (simp add: assign_vector_def)

subsection \<open>Move construction and move assignment\<close>

lemma swap_vector_exchange:
  assumes "objects w x = Some a" and "objects w y = Some b"
  shows "swap_vector x y w = Inr (w\<lparr>objects := (objects w)(x \<mapsto> b, y \<mapsto> a)\<rparr>)"
  using assms by (cases a, cases b) (simp add: swap_vector_def)

text \<open>
  C5, as stated, fails for the move assignment: moving the vector at address 1 into the
  vector at address 0, which has two devices and six elements, leaves at address 1 what was
  at address 0, a vector of two devices and six elements, not an empty one.
\<close>

theorem move_assign_swaps_counterexample:
  "move_assign 0 1 two_vectors_world
     = Inr (two_vectors_world\<lparr>objects := [0 \<mapsto> other_vector, 1 \<mapsto> example_vector]\<rparr>)
   \<and> length (queue example_vector) = 2
   \<and> part example_vector = [0, 4, 6]
   \<and> vector_size example_vector = 6"
  by (simp add: move_assign_def swap_vector_def two_vectors_world_def example_world_def
      example_vector_def other_vector_def example_queue_def vector_size_def)

text \<open>
  C5, amended. A move construction from \<open>v\<close> into new storage leaves in the new vector
  exactly the queues, partition table, buffer handles and events \<open>v\<close> held and leaves \<open>v\<close>
  empty (no queues, no partition table, size 0). A move assignment exchanges the two vectors:
  the destination holds exactly what \<open>v\<close> held and \<open>v\<close> holds what the destination held, so
  \<open>v\<close> is empty only when the destination was. Both change nothing but the two vector
  objects: no command is issued and no buffer is written.
\<close>

theorem move_transfers_ownership:
  "(objects w this = None \<and> objects w v = Some b \<longrightarrow>
      move_construct this v w = Inr (w\<lparr>objects := (objects w)(this \<mapsto> b, v \<mapsto> empty_vector)\<rparr>))
   \<and> (objects w' x = Some a \<and> objects w' y = Some c \<longrightarrow>
      move_assign x y w' = Inr (w'\<lparr>objects := (objects w')(x \<mapsto> c, y \<mapsto> a)\<rparr>))
   \<and> queue empty_vector = [] \<and> part empty_vector = [] \<and> buf empty_vector = []
   \<and> event empty_vector = [] \<and> vector_size empty_vector = 0"
proof (intro conjI impI)
  assume h: "objects w this = None \<and> objects w v = Some b"
  then have neq: "this \<noteq> v" by auto
  let ?w = "w\<lparr>objects := (objects w)(this \<mapsto> empty_vector)\<rparr>"
  have "objects ?w this = Some empty_vector" "objects ?w v = Some b"
    using h neq by simp_all
  then have "swap_vector this v ?w = Inr (?w\<lparr>objects := (objects ?w)(this \<mapsto> b, v \<mapsto> empty_vector)\<rparr>)"
    by (rule swap_vector_exchange)
  then show "move_construct this v w = Inr (w\<lparr>objects := (objects w)(this \<mapsto> b, v \<mapsto> empty_vector)\<rparr>)"
    by (simp add: move_construct_def)
next
  assume "objects w' x = Some a \<and> objects w' y = Some c"
  then show "move_assign x y w' = Inr (w'\<lparr>objects := (objects w')(x \<mapsto> c, y \<mapsto> a)\<rparr>)"
    by (simp add: move_assign_def swap_vector_exchange)
qed (simp_all add: empty_vector_def vector_size_def)

theorem move_transfers_ownership_witness:
  "objects two_vectors_world 2 = None \<and> objects two_vectors_world 1 = Some other_vector
   \<and> objects two_vectors_world 0 = Some example_vector
   \<and> move_construct 2 1 two_vectors_world
       = Inr (two_vectors_world\<lparr>objects := (objects two_vectors_world)(2 \<mapsto> other_vector, 1 \<mapsto> empty_vector)\<rparr>)
   \<and> move_assign 0 1 two_vectors_world
       = Inr (two_vectors_world\<lparr>objects := (objects two_vectors_world)(0 \<mapsto> other_vector, 1 \<mapsto> example_vector)\<rparr>)"
proof -
  have 1: "objects two_vectors_world 2 = None \<and> objects two_vectors_world 1 = Some other_vector"
    by (simp add: two_vectors_world_def)
  have 2: "objects two_vectors_world 0 = Some example_vector \<and> objects two_vectors_world 1 = Some other_vector"
    by (simp add: two_vectors_world_def)
  from move_transfers_ownership [of two_vectors_world 2 1 other_vector two_vectors_world 0 example_vector 1 other_vector]
    1 2 show ?thesis by blast
qed


subsection \<open>Compound assignment\<close>

text \<open>
  C8. For each of the ten compound operators, \<^verbatim>\<open>x op= e\<close> is the assignment to \<open>x\<close> of the
  binary expression \<^verbatim>\<open>x op e\<close>: the same result and the same state.
\<close>

theorem compound_assignment_is_assignment:
  "compound_assignment rt Plus_assign x e w = assign_binary rt x Plus e w
   \<and> compound_assignment rt Minus_assign x e w = assign_binary rt x Minus e w
   \<and> compound_assignment rt Multiplies_assign x e w = assign_binary rt x Multiplies e w
   \<and> compound_assignment rt Divides_assign x e w = assign_binary rt x Divides e w
   \<and> compound_assignment rt Modulus_assign x e w = assign_binary rt x Modulus e w
   \<and> compound_assignment rt Bitwise_and_assign x e w = assign_binary rt x Bitwise_and e w
   \<and> compound_assignment rt Bitwise_or_assign x e w = assign_binary rt x Bitwise_or e w
   \<and> compound_assignment rt Bitwise_xor_assign x e w = assign_binary rt x Bitwise_xor e w
   \<and> compound_assignment rt Shift_left_assign x e w = assign_binary rt x Shift_left e w
   \<and> compound_assignment rt Shift_right_assign x e w = assign_binary rt x Shift_right e w"
  by (simp add: compound_assignment_def assign_binary_def)


subsection \<open>Assignment of a sparse matrix-vector product\<close>

text \<open>
  C4. The claim asks that after \<^verbatim>\<open>y = A * x\<close> with the 4 x 4 identity matrix the target
  holds \<open>x\<close>. The assignment returns without issuing any command and without changing any
  buffer: with the target zeroed and \<open>x = [1, 2, 3, 4]\<close>, the target still reads
  \<open>[0, 0, 0, 0]\<close> afterwards.
\<close>

theorem spmv_product_is_not_evaluated:
  "\<exists>w'. assign_spmv rt mul 0 (Spmv_terminal \<lparr>spmv_A = identity4, spmv_x = 1\<rparr>) spmv_world = (None, w')
     \<and> commands w' = []
     \<and> mem w' = mem spmv_world
     \<and> (\<exists>w''. copy_to_host 0 [9, 9, 9, 9] True w' = Inr ([0, 0, 0, 0], w''))
     \<and> (\<exists>w''. copy_to_host 1 [9, 9, 9, 9] True w' = Inr ([1, 2, 3, 4], w''))"
  by (simp add: spmv_world_def one_queue_def copy_to_host_def read_data_def read_step_def
      wait_step_def wait_event_def enqueueReadBuffer_def start_of_def stop_of_def vector_size_def
      upt_rec Let_def)


subsection \<open>The kernel cache\<close>












lemma compile_step_objects: "objects (snd (compile_step rt sh w q)) = objects w"
  by (simp add: compile_step_def Let_def split: prod.splits)











lemma foldS_objects:
  assumes "\<And>s x. objects (snd (f s x)) = objects s"
  shows "objects (snd (foldS f w xs)) = objects w"
proof (induction xs arbitrary: w)
  case Nil
  show ?case by simp
next
  case (Cons x xs)
  obtain r w' where step: "f w x = (r, w')" by (cases "f w x")
  then have "objects w' = objects w" using assms [of w x] by simp
  with Cons.IH [of w'] step show ?case by (cases r) simp_all
qed















end
